theory Spec2Isabelle
  imports Main "HOL-Library.Word" "HOL-Library.AList"
begin

unbundle bit_operations_syntax

section \<open>Python values used by the application\<close>

text \<open>
  A Python \<open>str\<close> is a sequence of Unicode code points (lone surrogates included), a
  \<open>bytes\<close> object a sequence of octets. Exceptions are values: a computation that may
  raise returns \<open>exc + 'a\<close>, with \<open>Inl\<close> for the exception. A Python value that may be
  \<open>None\<close> is an \<open>option\<close>.
\<close>

type_synonym pystr = "nat list"
type_synonym byte = "8 word"
type_synonym bytes = "8 word list"

datatype exc =
  UnicodeEncodeError | UnicodeDecodeError | BinasciiError | ValueError
  | IndexError | TypeError | AttributeError | OSError

definition asc :: "string \<Rightarrow> pystr" where
  "asc s = map of_char s"

subsection \<open>str.encode('utf-8')\<close>

definition utf8_encode_cp :: "nat \<Rightarrow> exc + bytes" where
  "utf8_encode_cp c =
     (if c < 0x80 then Inr [of_nat c]
      else if c < 0x800 then Inr [of_nat (0xC0 + c div 64), of_nat (0x80 + c mod 64)]
      else if 0xD800 \<le> c \<and> c < 0xE000 then Inl UnicodeEncodeError
      else if c < 0x10000 then
        Inr [of_nat (0xE0 + c div 4096), of_nat (0x80 + c div 64 mod 64), of_nat (0x80 + c mod 64)]
      else if c < 0x110000 then
        Inr [of_nat (0xF0 + c div 262144), of_nat (0x80 + c div 4096 mod 64),
             of_nat (0x80 + c div 64 mod 64), of_nat (0x80 + c mod 64)]
      else Inl UnicodeEncodeError)"

fun utf8_encode :: "pystr \<Rightarrow> exc + bytes" where
  "utf8_encode [] = Inr []"
| "utf8_encode (c # cs) =
     (case utf8_encode_cp c of
        Inl e \<Rightarrow> Inl e
      | Inr b \<Rightarrow> (case utf8_encode cs of Inl e \<Rightarrow> Inl e | Inr bs \<Rightarrow> Inr (b @ bs)))"

text \<open>The code points \<open>encode\<close> accepts: Unicode scalar values.\<close>

definition scalar :: "nat \<Rightarrow> bool" where
  "scalar c = (c < 0xD800 \<or> (0xE000 \<le> c \<and> c < 0x110000))"

subsection \<open>Substring search, \<open>in\<close>, \<open>str.split(sep, maxsplit)\<close>, \<open>str.strip()\<close>\<close>

text \<open>
  \<open>cut sep s\<close> finds the leftmost occurrence of \<open>sep\<close> in \<open>s\<close> and returns what stands
  before and after it. The separators of the application are non-empty constants.
\<close>

fun cut :: "'a list \<Rightarrow> 'a list \<Rightarrow> ('a list \<times> 'a list) option" where
  "cut sep [] = (if sep = [] then Some ([], []) else None)"
| "cut sep (c # cs) =
     (if take (length sep) (c # cs) = sep then Some ([], drop (length sep) (c # cs))
      else map_option (\<lambda>(a, b). (c # a, b)) (cut sep cs))"

definition str_contains :: "'a list \<Rightarrow> 'a list \<Rightarrow> bool" where
  "str_contains sep s = (cut sep s \<noteq> None)"

fun str_split :: "'a list \<Rightarrow> nat \<Rightarrow> 'a list \<Rightarrow> 'a list list" where
  "str_split sep 0 s = [s]"
| "str_split sep (Suc n) s =
     (case cut sep s of None \<Rightarrow> [s] | Some (a, b) \<Rightarrow> a # str_split sep n b)"

lemma cut_Some_append: "cut sep s = Some (a, b) \<Longrightarrow> s = a @ sep @ b"
proof (induction s arbitrary: a)
  case Nil
  then show ?case by (simp split: if_splits)
next
  case (Cons c cs)
  show ?case
  proof (cases "take (length sep) (c # cs) = sep")
    case True
    with Cons.prems have "a = []" "b = drop (length sep) (c # cs)" by simp_all
    with True show ?thesis by (metis append_Nil append_take_drop_id)
  next
    case False
    with Cons.prems obtain a' where "cut sep cs = Some (a', b)" "a = c # a'"
      by (auto split: prod.splits)
    with Cons.IH show ?thesis by simp
  qed
qed

definition isspace :: "nat \<Rightarrow> bool" where
  "isspace c =
     ((9 \<le> c \<and> c \<le> 13) \<or> (28 \<le> c \<and> c \<le> 32) \<or> c = 133 \<or> c = 160 \<or> c = 5760
      \<or> (8192 \<le> c \<and> c \<le> 8202) \<or> c = 8232 \<or> c = 8233 \<or> c = 8239 \<or> c = 8287
      \<or> c = 12288)"

definition str_strip :: "pystr \<Rightarrow> pystr" where
  "str_strip s = rev (dropWhile isspace (rev (dropWhile isspace s)))"

section \<open>config.py\<close>

definition MSG_DELIMITER :: pystr where
  "MSG_DELIMITER = 10 # asc ''###MSG###'' @ [10]"

definition MSG_SEPARATOR :: pystr where
  "MSG_SEPARATOR = asc ''||''"

definition MSG_TYPE_AUTH :: pystr where
  "MSG_TYPE_AUTH = asc ''AUTH''"

definition MSG_TYPE_KEY_EXCHANGE :: pystr where
  "MSG_TYPE_KEY_EXCHANGE = asc ''KEY_EXCHANGE''"

definition MSG_TYPE_MESSAGE :: pystr where
  "MSG_TYPE_MESSAGE = asc ''MESSAGE''"

definition MSG_TYPE_BROADCAST :: pystr where
  "MSG_TYPE_BROADCAST = asc ''BROADCAST''"

definition MSG_TYPE_USER_LIST :: pystr where
  "MSG_TYPE_USER_LIST = asc ''USER_LIST''"

definition AES_KEY_SIZE :: nat where
  "AES_KEY_SIZE = 32"

definition AES_IV_SIZE :: nat where
  "AES_IV_SIZE = 16"

section \<open>server.py: the relay\<close>

text \<open>
  The three dictionaries of \<open>ChatServer\<close> are association lists in insertion order, as
  Python dictionaries are: \<open>d[k] = v\<close> is \<open>AList.update\<close>, \<open>del d[k]\<close> is \<open>AList.delete\<close>,
  \<open>k in d\<close> is \<open>map_of d k \<noteq> None\<close>. A socket is an identifier; \<open>ok sk\<close> tells whether a
  \<open>send\<close> on \<open>sk\<close> goes through (it raises otherwise). What a call writes is returned as
  a list of events, in order: \<open>Sent sk msg\<close> records that \<open>msg.encode('utf-8')\<close> was
  written to \<open>sk\<close>. The audit logger and the console output are left out.
\<close>

type_synonym sock = nat
type_synonym address = "pystr \<times> nat"

record chat_server =
  clients :: "(pystr \<times> sock) list"
  client_addresses :: "(pystr \<times> address) list"
  public_keys :: "(pystr \<times> pystr) list"

datatype event = Sent sock pystr | Closed sock

datatype recv = Data pystr | RecvError

definition sock_send :: "(sock \<Rightarrow> bool) \<Rightarrow> sock \<Rightarrow> pystr \<Rightarrow> exc + event" where
  "sock_send ok sk msg =
     (case utf8_encode msg of
        Inl e \<Rightarrow> Inl e
      | Inr bs \<Rightarrow> if ok sk then Inr (Sent sk msg) else Inl OSError)"

definition del_key :: "pystr \<Rightarrow> (pystr \<times> 'v) list \<Rightarrow> (pystr \<times> 'v) list" where
  "del_key username d = (if map_of d username \<noteq> None then AList.delete username d else d)"

definition send_direct_message ::
  "(sock \<Rightarrow> bool) \<Rightarrow> chat_server \<Rightarrow> pystr \<Rightarrow> pystr \<Rightarrow> pystr \<Rightarrow> chat_server \<times> event list" where
  "send_direct_message ok s sender recipient encrypted_content =
     (case map_of (clients s) recipient of
        None \<Rightarrow> (s, [])
      | Some sk \<Rightarrow>
          (case sock_send ok sk
                  (MSG_TYPE_MESSAGE @ MSG_SEPARATOR @ sender @ MSG_SEPARATOR
                     @ encrypted_content @ MSG_DELIMITER) of
             Inl e \<Rightarrow> (s, [])
           | Inr ev \<Rightarrow> (s, [ev])))"

fun broadcast_loop ::
  "(sock \<Rightarrow> bool) \<Rightarrow> pystr \<Rightarrow> pystr \<Rightarrow> (pystr \<times> sock) list \<Rightarrow> event list \<times> pystr list" where
  "broadcast_loop ok sender encrypted_content [] = ([], [])"
| "broadcast_loop ok sender encrypted_content ((username, client_socket) # rest) =
     (let (evs, disconnected) = broadcast_loop ok sender encrypted_content rest in
      if username \<noteq> sender then
        (case sock_send ok client_socket
                (MSG_TYPE_BROADCAST @ MSG_SEPARATOR @ sender @ MSG_SEPARATOR
                   @ encrypted_content @ MSG_DELIMITER) of
           Inl e \<Rightarrow> (evs, username # disconnected)
         | Inr ev \<Rightarrow> (ev # evs, disconnected))
      else (evs, disconnected))"

definition broadcast_message ::
  "(sock \<Rightarrow> bool) \<Rightarrow> chat_server \<Rightarrow> pystr \<Rightarrow> pystr \<Rightarrow> chat_server \<times> event list" where
  "broadcast_message ok s sender encrypted_content =
     (let (evs, disconnected) = broadcast_loop ok sender encrypted_content (clients s) in
      (s\<lparr>clients := fold del_key disconnected (clients s)\<rparr>, evs))"

definition route_message ::
  "(sock \<Rightarrow> bool) \<Rightarrow> chat_server \<Rightarrow> pystr \<Rightarrow> pystr \<Rightarrow> chat_server \<times> event list" where
  "route_message ok s sender message_data =
     (let parts = str_split MSG_SEPARATOR 2 message_data in
      if length parts < 2 then (s, [])
      else
        let msg_type = parts ! 0 in
        if msg_type = MSG_TYPE_BROADCAST then broadcast_message ok s sender (parts ! 1)
        else if msg_type = MSG_TYPE_MESSAGE then
          (if length parts < 3 then (s, [])
           else send_direct_message ok s sender (parts ! 1) (parts ! 2))
        else (s, []))"

fun user_list_loop ::
  "(sock \<Rightarrow> bool) \<Rightarrow> pystr \<Rightarrow> (pystr \<times> sock) list \<Rightarrow> event list \<times> pystr list" where
  "user_list_loop ok message [] = ([], [])"
| "user_list_loop ok message ((username, client_socket) # rest) =
     (let (evs, disconnected) = user_list_loop ok message rest in
      case sock_send ok client_socket message of
        Inl e \<Rightarrow> (evs, username # disconnected)
      | Inr ev \<Rightarrow> (ev # evs, disconnected))"

text \<open>\<open>json_dumps\<close> stands for the library's \<open>json.dumps\<close> on a list of names.\<close>

definition broadcast_user_list ::
  "(sock \<Rightarrow> bool) \<Rightarrow> (pystr list \<Rightarrow> pystr) \<Rightarrow> chat_server \<Rightarrow> chat_server \<times> event list" where
  "broadcast_user_list ok json_dumps s =
     (let user_list = map fst (clients s);
          user_list_json = json_dumps user_list;
          message = MSG_TYPE_USER_LIST @ MSG_SEPARATOR @ user_list_json @ MSG_DELIMITER;
          (evs, disconnected) = user_list_loop ok message (clients s)
      in (s\<lparr>clients := fold del_key disconnected (clients s)\<rparr>, evs))"

fun all_keys_loop :: "(sock \<Rightarrow> bool) \<Rightarrow> pystr \<Rightarrow> sock \<Rightarrow> (pystr \<times> pystr) list \<Rightarrow> event list" where
  "all_keys_loop ok username client_socket [] = []"
| "all_keys_loop ok username client_socket ((other_user, public_key) # rest) =
     (if other_user \<noteq> username then
        (case sock_send ok client_socket
                (MSG_TYPE_KEY_EXCHANGE @ MSG_SEPARATOR @ other_user @ MSG_SEPARATOR
                   @ public_key @ MSG_DELIMITER) of
           Inl e \<Rightarrow> all_keys_loop ok username client_socket rest
         | Inr ev \<Rightarrow> ev # all_keys_loop ok username client_socket rest)
      else all_keys_loop ok username client_socket rest)"

definition send_all_public_keys :: "(sock \<Rightarrow> bool) \<Rightarrow> chat_server \<Rightarrow> pystr \<Rightarrow> event list" where
  "send_all_public_keys ok s username =
     (case map_of (clients s) username of
        None \<Rightarrow> []
      | Some client_socket \<Rightarrow> all_keys_loop ok username client_socket (public_keys s))"

fun public_key_loop :: "(sock \<Rightarrow> bool) \<Rightarrow> pystr \<Rightarrow> pystr \<Rightarrow> (pystr \<times> sock) list \<Rightarrow> event list" where
  "public_key_loop ok username message [] = []"
| "public_key_loop ok username message ((other_user, client_socket) # rest) =
     (if other_user \<noteq> username then
        (case sock_send ok client_socket message of
           Inl e \<Rightarrow> public_key_loop ok username message rest
         | Inr ev \<Rightarrow> ev # public_key_loop ok username message rest)
      else public_key_loop ok username message rest)"

definition broadcast_public_key ::
  "(sock \<Rightarrow> bool) \<Rightarrow> chat_server \<Rightarrow> pystr \<Rightarrow> pystr \<Rightarrow> event list" where
  "broadcast_public_key ok s username public_key =
     public_key_loop ok username
       (MSG_TYPE_KEY_EXCHANGE @ MSG_SEPARATOR @ username @ MSG_SEPARATOR @ public_key
          @ MSG_DELIMITER)
       (clients s)"

subsection \<open>\<open>handle_client\<close>\<close>

text \<open>
  The \<open>finally\<close> block of \<open>handle_client\<close>. It runs on every way out of the \<open>try\<close>: a
  \<open>return\<close>, an exception, or the end of the receive loop. \<open>username\<close> is the local
  variable as it stands at that moment (\<open>None\<close> until line 94 assigns it); the test
  \<open>if username:\<close> holds for a non-empty string.
\<close>

definition handle_client_finally ::
  "(sock \<Rightarrow> bool) \<Rightarrow> (pystr list \<Rightarrow> pystr) \<Rightarrow> chat_server \<Rightarrow> pystr option \<Rightarrow> sock
     \<Rightarrow> chat_server \<times> event list" where
  "handle_client_finally ok json_dumps s username client_socket =
     (let (s', evs) =
            (case username of
               None \<Rightarrow> (s, [])
             | Some u \<Rightarrow>
                 if u = [] then (s, [])
                 else
                   broadcast_user_list ok json_dumps
                     (s\<lparr>clients := del_key u (clients s),
                        client_addresses := del_key u (client_addresses s),
                        public_keys := del_key u (public_keys s)\<rparr>))
      in (s', evs @ [Closed client_socket]))"

text \<open>
  The receive loop (lines 129 to 142): every read is routed until a read raises, returns
  the empty string (end of stream), or the listed reads are over.
\<close>

fun client_loop ::
  "(sock \<Rightarrow> bool) \<Rightarrow> chat_server \<Rightarrow> pystr \<Rightarrow> recv list \<Rightarrow> chat_server \<times> event list" where
  "client_loop ok s username [] = (s, [])"
| "client_loop ok s username (RecvError # rest) = (s, [])"
| "client_loop ok s username (Data message_data # rest) =
     (if message_data = [] then (s, [])
      else
        let (s1, e1) = route_message ok s username message_data;
            (s2, e2) = client_loop ok s1 username rest
        in (s2, e1 @ e2))"

text \<open>
  The critical section of lines 98 to 109, after the duplicate test: the three
  dictionaries get the new entry.
\<close>

definition register_client :: "chat_server \<Rightarrow> pystr \<Rightarrow> sock \<Rightarrow> address \<Rightarrow> pystr \<Rightarrow> chat_server" where
  "register_client s username client_socket address public_key_pem =
     s\<lparr>clients := AList.update username client_socket (clients s),
       client_addresses := AList.update username address (client_addresses s),
       public_keys := AList.update username public_key_pem (public_keys s)\<rparr>"

text \<open>
  \<open>handle_client\<close> for one connection: \<open>auth\<close> is the first read, \<open>msgs\<close> the later ones.
  The result is the server's state and what was written when the handler is over.
\<close>

definition handle_client ::
  "(sock \<Rightarrow> bool) \<Rightarrow> (pystr list \<Rightarrow> pystr) \<Rightarrow> chat_server \<Rightarrow> sock \<Rightarrow> address \<Rightarrow> recv
     \<Rightarrow> recv list \<Rightarrow> chat_server \<times> event list" where
  "handle_client ok json_dumps s client_socket address auth msgs =
     (let finish = (\<lambda>s' username evs.
            let (s'', evs') = handle_client_finally ok json_dumps s' username client_socket
            in (s'', evs @ evs'))
      in
      case auth of
        RecvError \<Rightarrow> finish s None []
      | Data auth_data \<Rightarrow>
          if auth_data = [] then finish s None [Closed client_socket]
          else
            let parts = str_split MSG_SEPARATOR 2 auth_data in
            if length parts \<noteq> 3 \<or> parts ! 0 \<noteq> MSG_TYPE_AUTH then
              (case sock_send ok client_socket
                      (asc ''ERROR: Invalid authentication'' @ MSG_DELIMITER) of
                 Inl e \<Rightarrow> finish s None []
               | Inr ev \<Rightarrow> finish s None [ev, Closed client_socket])
            else
              let username = parts ! 1; public_key_pem = parts ! 2 in
              if map_of (clients s) username \<noteq> None then
                (case sock_send ok client_socket
                        (asc ''ERROR: Username '' @ [39] @ username @ [39]
                           @ asc '' already taken'' @ MSG_DELIMITER) of
                   Inl e \<Rightarrow> finish s (Some username) []
                 | Inr ev \<Rightarrow> finish s (Some username) [ev, Closed client_socket])
              else
                let s1 = register_client s username client_socket address public_key_pem in
                (case sock_send ok client_socket (asc ''SUCCESS'' @ MSG_DELIMITER) of
                   Inl e \<Rightarrow> finish s1 (Some username) []
                 | Inr ev \<Rightarrow>
                     let (s2, e2) = broadcast_user_list ok json_dumps s1;
                         e3 = send_all_public_keys ok s2 username;
                         e4 = broadcast_public_key ok s2 username public_key_pem;
                         (s3, e5) = client_loop ok s2 username msgs
                     in finish s3 (Some username) ([ev] @ e2 @ e3 @ e4 @ e5)))"

section \<open>client.py: the receive loop\<close>

text \<open>
  \<open>extract_messages\<close> is the inner \<open>while\<close> loop of \<open>receive_messages\<close> (lines 104 to 107):
  while the delimiter occurs in the buffer, \<open>buffer.split(MSG_DELIMITER, 1)\<close> cuts the buffer
  at its first occurrence, and the span before it is passed to \<open>process_message\<close> when its
  \<open>strip()\<close> is non-empty. The result lists the spans passed to \<open>process_message\<close>, in
  order, and the buffer that is left.
\<close>

lemma cut_shorter: "cut sep s = Some (a, b) \<Longrightarrow> sep \<noteq> [] \<Longrightarrow> length b < length s"
  by (drule cut_Some_append) (cases sep, auto)

lemma MSG_DELIMITER_nonempty: "MSG_DELIMITER \<noteq> []"
  by (simp add: MSG_DELIMITER_def)

function extract_messages :: "pystr \<Rightarrow> pystr list \<times> pystr" where
  "extract_messages buffer =
     (case cut MSG_DELIMITER buffer of
        None \<Rightarrow> ([], buffer)
      | Some (message, buffer') \<Rightarrow>
          (let (handed, rest) = extract_messages buffer' in
           (if str_strip message \<noteq> [] then message # handed else handed, rest)))"
  by pat_completeness auto
termination
  by (relation "measure length") (auto simp: cut_shorter MSG_DELIMITER_nonempty)

declare extract_messages.simps [simp del]

text \<open>
  The outer loop (lines 93 to 112), on the list of the results of
  \<open>self.socket.recv(...).decode('utf-8')\<close>: \<open>Data d\<close> when the read returned the text \<open>d\<close>
  (the empty text at the end of the stream), \<open>RecvError\<close> when \<open>recv\<close> or \<open>decode\<close> raised
  (a multi-byte character cut by the end of a read makes \<open>decode\<close> raise). The flags
  \<open>running\<close> and \<open>connected\<close> stay set while the listed reads last.
\<close>

fun receive_loop :: "pystr \<Rightarrow> recv list \<Rightarrow> pystr list \<times> pystr" where
  "receive_loop buffer [] = ([], buffer)"
| "receive_loop buffer (RecvError # reads) = ([], buffer)"
| "receive_loop buffer (Data data # reads) =
     (if data = [] then ([], buffer)
      else
        let (handed, buffer') = extract_messages (buffer @ data);
            (handed', buffer'') = receive_loop buffer' reads
        in (handed @ handed', buffer''))"

definition receive_messages :: "recv list \<Rightarrow> pystr list \<times> pystr" where
  "receive_messages reads = receive_loop [] reads"

text \<open>The spans of a stream: \<open>stream.split(MSG_DELIMITER)\<close>, every occurrence split.\<close>

definition spans :: "pystr \<Rightarrow> pystr list" where
  "spans stream = str_split MSG_DELIMITER (length stream) stream"

section \<open>The library's AES (FIPS 197) in CBC mode\<close>

text \<open>
  \<open>Crypto.Cipher.AES\<close> is the block cipher of FIPS 197. The state is the 16 bytes of a
  block in the standard's order (byte \<open>r + 4 c\<close> is row \<open>r\<close> of column \<open>c\<close>).
\<close>

definition sbox_table :: "byte list" where
  "sbox_table =
     [99, 124, 119, 123, 242, 107, 111, 197, 48, 1, 103, 43, 254, 215, 171, 118,
      202, 130, 201, 125, 250, 89, 71, 240, 173, 212, 162, 175, 156, 164, 114, 192,
      183, 253, 147, 38, 54, 63, 247, 204, 52, 165, 229, 241, 113, 216, 49, 21,
      4, 199, 35, 195, 24, 150, 5, 154, 7, 18, 128, 226, 235, 39, 178, 117,
      9, 131, 44, 26, 27, 110, 90, 160, 82, 59, 214, 179, 41, 227, 47, 132,
      83, 209, 0, 237, 32, 252, 177, 91, 106, 203, 190, 57, 74, 76, 88, 207,
      208, 239, 170, 251, 67, 77, 51, 133, 69, 249, 2, 127, 80, 60, 159, 168,
      81, 163, 64, 143, 146, 157, 56, 245, 188, 182, 218, 33, 16, 255, 243, 210,
      205, 12, 19, 236, 95, 151, 68, 23, 196, 167, 126, 61, 100, 93, 25, 115,
      96, 129, 79, 220, 34, 42, 144, 136, 70, 238, 184, 20, 222, 94, 11, 219,
      224, 50, 58, 10, 73, 6, 36, 92, 194, 211, 172, 98, 145, 149, 228, 121,
      231, 200, 55, 109, 141, 213, 78, 169, 108, 86, 244, 234, 101, 122, 174, 8,
      186, 120, 37, 46, 28, 166, 180, 198, 232, 221, 116, 31, 75, 189, 139, 138,
      112, 62, 181, 102, 72, 3, 246, 14, 97, 53, 87, 185, 134, 193, 29, 158,
      225, 248, 152, 17, 105, 217, 142, 148, 155, 30, 135, 233, 206, 85, 40, 223,
      140, 161, 137, 13, 191, 230, 66, 104, 65, 153, 45, 15, 176, 84, 187, 22]"

definition inv_sbox_table :: "byte list" where
  "inv_sbox_table =
     [82, 9, 106, 213, 48, 54, 165, 56, 191, 64, 163, 158, 129, 243, 215, 251,
      124, 227, 57, 130, 155, 47, 255, 135, 52, 142, 67, 68, 196, 222, 233, 203,
      84, 123, 148, 50, 166, 194, 35, 61, 238, 76, 149, 11, 66, 250, 195, 78,
      8, 46, 161, 102, 40, 217, 36, 178, 118, 91, 162, 73, 109, 139, 209, 37,
      114, 248, 246, 100, 134, 104, 152, 22, 212, 164, 92, 204, 93, 101, 182, 146,
      108, 112, 72, 80, 253, 237, 185, 218, 94, 21, 70, 87, 167, 141, 157, 132,
      144, 216, 171, 0, 140, 188, 211, 10, 247, 228, 88, 5, 184, 179, 69, 6,
      208, 44, 30, 143, 202, 63, 15, 2, 193, 175, 189, 3, 1, 19, 138, 107,
      58, 145, 17, 65, 79, 103, 220, 234, 151, 242, 207, 206, 240, 180, 230, 115,
      150, 172, 116, 34, 231, 173, 53, 133, 226, 249, 55, 232, 28, 117, 223, 110,
      71, 241, 26, 113, 29, 41, 197, 137, 111, 183, 98, 14, 170, 24, 190, 27,
      252, 86, 62, 75, 198, 210, 121, 32, 154, 219, 192, 254, 120, 205, 90, 244,
      31, 221, 168, 51, 136, 7, 199, 49, 177, 18, 16, 89, 39, 128, 236, 95,
      96, 81, 127, 169, 25, 181, 74, 13, 45, 229, 122, 159, 147, 201, 156, 239,
      160, 224, 59, 77, 174, 42, 245, 176, 200, 235, 187, 60, 131, 83, 153, 97,
      23, 43, 4, 126, 186, 119, 214, 38, 225, 105, 20, 99, 85, 33, 12, 125]"

definition sbox :: "byte \<Rightarrow> byte" where
  "sbox x = sbox_table ! unat x"

definition inv_sbox :: "byte \<Rightarrow> byte" where
  "inv_sbox x = inv_sbox_table ! unat x"

definition xtime :: "byte \<Rightarrow> byte" where
  "xtime x = push_bit 1 x XOR (if bit x 7 then 0x1b else 0)"

definition mul3 :: "byte \<Rightarrow> byte" where
  "mul3 x = xtime x XOR x"

definition mul9 :: "byte \<Rightarrow> byte" where
  "mul9 x = xtime (xtime (xtime x)) XOR x"

definition mul11 :: "byte \<Rightarrow> byte" where
  "mul11 x = xtime (xtime (xtime x)) XOR xtime x XOR x"

definition mul13 :: "byte \<Rightarrow> byte" where
  "mul13 x = xtime (xtime (xtime x)) XOR xtime (xtime x) XOR x"

definition mul14 :: "byte \<Rightarrow> byte" where
  "mul14 x = xtime (xtime (xtime x)) XOR xtime (xtime x) XOR xtime x"

definition sub_bytes :: "bytes \<Rightarrow> bytes" where
  "sub_bytes s = map sbox s"

definition inv_sub_bytes :: "bytes \<Rightarrow> bytes" where
  "inv_sub_bytes s = map inv_sbox s"

definition shift_rows :: "bytes \<Rightarrow> bytes" where
  "shift_rows s =
     [s ! 0, s ! 5, s ! 10, s ! 15, s ! 4, s ! 9, s ! 14, s ! 3,
      s ! 8, s ! 13, s ! 2, s ! 7, s ! 12, s ! 1, s ! 6, s ! 11]"

definition inv_shift_rows :: "bytes \<Rightarrow> bytes" where
  "inv_shift_rows s =
     [s ! 0, s ! 13, s ! 10, s ! 7, s ! 4, s ! 1, s ! 14, s ! 11,
      s ! 8, s ! 5, s ! 2, s ! 15, s ! 12, s ! 9, s ! 6, s ! 3]"

definition mix_column :: "byte \<Rightarrow> byte \<Rightarrow> byte \<Rightarrow> byte \<Rightarrow> bytes" where
  "mix_column a b c d =
     [xtime a XOR mul3 b XOR c XOR d,
      a XOR xtime b XOR mul3 c XOR d,
      a XOR b XOR xtime c XOR mul3 d,
      mul3 a XOR b XOR c XOR xtime d]"

definition inv_mix_column :: "byte \<Rightarrow> byte \<Rightarrow> byte \<Rightarrow> byte \<Rightarrow> bytes" where
  "inv_mix_column a b c d =
     [mul14 a XOR mul11 b XOR mul13 c XOR mul9 d,
      mul9 a XOR mul14 b XOR mul11 c XOR mul13 d,
      mul13 a XOR mul9 b XOR mul14 c XOR mul11 d,
      mul11 a XOR mul13 b XOR mul9 c XOR mul14 d]"

definition mix_columns :: "bytes \<Rightarrow> bytes" where
  "mix_columns s =
     mix_column (s ! 0) (s ! 1) (s ! 2) (s ! 3) @ mix_column (s ! 4) (s ! 5) (s ! 6) (s ! 7)
     @ mix_column (s ! 8) (s ! 9) (s ! 10) (s ! 11)
     @ mix_column (s ! 12) (s ! 13) (s ! 14) (s ! 15)"

definition inv_mix_columns :: "bytes \<Rightarrow> bytes" where
  "inv_mix_columns s =
     inv_mix_column (s ! 0) (s ! 1) (s ! 2) (s ! 3)
     @ inv_mix_column (s ! 4) (s ! 5) (s ! 6) (s ! 7)
     @ inv_mix_column (s ! 8) (s ! 9) (s ! 10) (s ! 11)
     @ inv_mix_column (s ! 12) (s ! 13) (s ! 14) (s ! 15)"

definition xor_bytes :: "bytes \<Rightarrow> bytes \<Rightarrow> bytes" where
  "xor_bytes a b = map (\<lambda>(x, y). x XOR y) (zip a b)"

text \<open>
  The key schedule, on 4-byte words: \<open>nk\<close> is the number of words of the key (4, 6 or 8),
  \<open>w\<close> the words so far, \<open>i = length w\<close> the index of the next word and \<open>rc\<close> the round
  constant of the next multiple of \<open>nk\<close>.
\<close>

fun expand_key :: "nat \<Rightarrow> nat \<Rightarrow> nat \<Rightarrow> byte \<Rightarrow> bytes list \<Rightarrow> bytes list" where
  "expand_key 0 nk i rc w = w"
| "expand_key (Suc n) nk i rc w =
     (let temp = w ! (i - 1) in
      if i mod nk = 0 then
        expand_key n nk (Suc i) (xtime rc)
          (w @ [xor_bytes (w ! (i - nk))
                  (xor_bytes (map sbox (drop 1 temp @ take 1 temp)) [rc, 0, 0, 0])])
      else if 6 < nk \<and> i mod nk = 4 then
        expand_key n nk (Suc i) rc (w @ [xor_bytes (w ! (i - nk)) (map sbox temp)])
      else expand_key n nk (Suc i) rc (w @ [xor_bytes (w ! (i - nk)) temp]))"

fun words4 :: "nat \<Rightarrow> bytes \<Rightarrow> bytes list" where
  "words4 0 key = []"
| "words4 (Suc n) key = take 4 key # words4 n (drop 4 key)"

definition key_expansion :: "bytes \<Rightarrow> bytes list" where
  "key_expansion key =
     (let nk = length key div 4 in expand_key (3 * nk + 28) nk nk 1 (words4 nk key))"

definition round_key :: "bytes list \<Rightarrow> nat \<Rightarrow> bytes" where
  "round_key w r = concat (take 4 (drop (4 * r) w))"

definition aes_round :: "bytes list \<Rightarrow> nat \<Rightarrow> bytes \<Rightarrow> bytes" where
  "aes_round w r s = xor_bytes (mix_columns (shift_rows (sub_bytes s))) (round_key w r)"

definition aes_inv_round :: "bytes list \<Rightarrow> nat \<Rightarrow> bytes \<Rightarrow> bytes" where
  "aes_inv_round w r s =
     inv_mix_columns (xor_bytes (inv_sub_bytes (inv_shift_rows s)) (round_key w r))"

definition aes_encrypt_block :: "bytes \<Rightarrow> bytes \<Rightarrow> bytes" where
  "aes_encrypt_block key block =
     (let w = key_expansion key;
          nr = length key div 4 + 6;
          s = fold (aes_round w) [1..<nr] (xor_bytes block (round_key w 0))
      in xor_bytes (shift_rows (sub_bytes s)) (round_key w nr))"

definition aes_decrypt_block :: "bytes \<Rightarrow> bytes \<Rightarrow> bytes" where
  "aes_decrypt_block key block =
     (let w = key_expansion key;
          nr = length key div 4 + 6;
          s = fold (aes_inv_round w) (rev [1..<nr]) (xor_bytes block (round_key w nr))
      in xor_bytes (inv_sub_bytes (inv_shift_rows s)) (round_key w 0))"

section \<open>bytes.decode('utf-8')\<close>

text \<open>
  The strict decoder: a lead byte, the continuation bytes it asks for, and no overlong
  form, surrogate or value beyond U+10FFFF. \<open>utf8_decode_cp\<close> reads one code point and
  returns it with the bytes that follow.
\<close>

definition cont :: "byte \<Rightarrow> bool" where
  "cont b = (0x80 \<le> unat b \<and> unat b < 0xC0)"

fun utf8_decode_cp :: "bytes \<Rightarrow> exc + (nat \<times> bytes)" where
  "utf8_decode_cp [] = Inl UnicodeDecodeError"
| "utf8_decode_cp (b0 # bs) =
     (let n0 = unat b0 in
      if n0 < 0x80 then Inr (n0, bs)
      else if n0 < 0xC0 then Inl UnicodeDecodeError
      else if n0 < 0xE0 then
        (case bs of
           b1 # r \<Rightarrow>
             if cont b1 then
               (let cp = (n0 - 0xC0) * 64 + (unat b1 - 0x80) in
                if cp < 0x80 then Inl UnicodeDecodeError else Inr (cp, r))
             else Inl UnicodeDecodeError
         | _ \<Rightarrow> Inl UnicodeDecodeError)
      else if n0 < 0xF0 then
        (case bs of
           b1 # b2 # r \<Rightarrow>
             if cont b1 \<and> cont b2 then
               (let cp = (n0 - 0xE0) * 4096 + (unat b1 - 0x80) * 64 + (unat b2 - 0x80) in
                if cp < 0x800 \<or> (0xD800 \<le> cp \<and> cp < 0xE000) then Inl UnicodeDecodeError
                else Inr (cp, r))
             else Inl UnicodeDecodeError
         | _ \<Rightarrow> Inl UnicodeDecodeError)
      else if n0 < 0xF8 then
        (case bs of
           b1 # b2 # b3 # r \<Rightarrow>
             if cont b1 \<and> cont b2 \<and> cont b3 then
               (let cp = (n0 - 0xF0) * 262144 + (unat b1 - 0x80) * 4096
                           + (unat b2 - 0x80) * 64 + (unat b3 - 0x80) in
                if cp < 0x10000 \<or> 0x110000 \<le> cp then Inl UnicodeDecodeError
                else Inr (cp, r))
             else Inl UnicodeDecodeError
         | _ \<Rightarrow> Inl UnicodeDecodeError)
      else Inl UnicodeDecodeError)"

lemma utf8_decode_cp_shorter: "utf8_decode_cp bs = Inr (cp, rest) \<Longrightarrow> length rest < length bs"
  by (cases bs) (auto simp: Let_def split: if_splits list.splits)

function utf8_decode :: "bytes \<Rightarrow> exc + pystr" where
  "utf8_decode bs =
     (if bs = [] then Inr []
      else
        case utf8_decode_cp bs of
          Inl e \<Rightarrow> Inl e
        | Inr (cp, rest) \<Rightarrow>
            (case utf8_decode rest of Inl e \<Rightarrow> Inl e | Inr s \<Rightarrow> Inr (cp # s)))"
  by pat_completeness auto
termination
  by (relation "measure length") (auto simp: utf8_decode_cp_shorter)

declare utf8_decode.simps [simp del]

section \<open>base64.b64encode and base64.b64decode\<close>

text \<open>
  The standard alphabet. \<open>b64decode\<close> is called without \<open>validate\<close>, so it is
  \<open>binascii.a2b_base64\<close> in its lenient mode: characters outside the alphabet are
  skipped, a pad character that completes a quad ends the decoding, and data characters
  left over in an incomplete quad raise \<open>binascii.Error\<close>. \<open>a2b_base64\<close> carries the
  loop's variables \<open>quad_pos\<close>, \<open>leftchar\<close> and \<open>pads\<close>.
\<close>

definition b64_char :: "nat \<Rightarrow> byte" where
  "b64_char d =
     of_nat (if d < 26 then 65 + d else if d < 52 then 71 + d else if d < 62 then d - 4
             else if d = 62 then 43 else 47)"

definition b64_value :: "byte \<Rightarrow> nat option" where
  "b64_value ch =
     (let n = unat ch in
      if 65 \<le> n \<and> n \<le> 90 then Some (n - 65)
      else if 97 \<le> n \<and> n \<le> 122 then Some (n - 71)
      else if 48 \<le> n \<and> n \<le> 57 then Some (n + 4)
      else if n = 43 then Some 62
      else if n = 47 then Some 63
      else None)"

fun b64encode :: "bytes \<Rightarrow> bytes" where
  "b64encode [] = []"
| "b64encode [a] =
     (let x = unat a in [b64_char (x div 4), b64_char (x mod 4 * 16), 61, 61])"
| "b64encode [a, b] =
     (let x = unat a; y = unat b in
      [b64_char (x div 4), b64_char (x mod 4 * 16 + y div 16), b64_char (y mod 16 * 4), 61])"
| "b64encode (a # b # c # rest) =
     (let x = unat a; y = unat b; z = unat c in
      [b64_char (x div 4), b64_char (x mod 4 * 16 + y div 16),
       b64_char (y mod 16 * 4 + z div 64), b64_char (z mod 64)] @ b64encode rest)"

fun emit :: "byte \<Rightarrow> exc + bytes \<Rightarrow> exc + bytes" where
  "emit b (Inl e) = Inl e"
| "emit b (Inr bs) = Inr (b # bs)"

fun a2b_base64 :: "nat \<Rightarrow> nat \<Rightarrow> nat \<Rightarrow> bytes \<Rightarrow> exc + bytes" where
  "a2b_base64 quad_pos leftchar pads [] = (if quad_pos \<noteq> 0 then Inl BinasciiError else Inr [])"
| "a2b_base64 quad_pos leftchar pads (this_ch # rest) =
     (if this_ch = 61 then
        (if 2 \<le> quad_pos \<and> 4 \<le> quad_pos + (pads + 1) then Inr []
         else a2b_base64 quad_pos leftchar (if 2 \<le> quad_pos then pads + 1 else pads) rest)
      else
        case b64_value this_ch of
          None \<Rightarrow> a2b_base64 quad_pos leftchar pads rest
        | Some d \<Rightarrow>
            if quad_pos = 0 then a2b_base64 1 d 0 rest
            else if quad_pos = 1 then
              emit (of_nat (leftchar * 4 + d div 16)) (a2b_base64 2 (d mod 16) 0 rest)
            else if quad_pos = 2 then
              emit (of_nat (leftchar * 16 + d div 4)) (a2b_base64 3 (d mod 4) 0 rest)
            else emit (of_nat (leftchar * 64 + d)) (a2b_base64 0 0 0 rest))"

definition b64decode :: "bytes \<Rightarrow> exc + bytes" where
  "b64decode s = a2b_base64 0 0 0 s"

section \<open>The library's cipher object: \<open>AES.new(key, AES.MODE_CBC, iv)\<close>\<close>

function blocks :: "bytes \<Rightarrow> bytes list" where
  "blocks data = (if data = [] then [] else take 16 data # blocks (drop 16 data))"
  by pat_completeness auto
termination
  by (relation "measure length") auto

declare blocks.simps [simp del]

fun cbc_encrypt :: "bytes \<Rightarrow> bytes \<Rightarrow> bytes list \<Rightarrow> bytes list" where
  "cbc_encrypt key prev [] = []"
| "cbc_encrypt key prev (p # ps) =
     (let c = aes_encrypt_block key (xor_bytes p prev) in c # cbc_encrypt key c ps)"

fun cbc_decrypt :: "bytes \<Rightarrow> bytes \<Rightarrow> bytes list \<Rightarrow> bytes list" where
  "cbc_decrypt key prev [] = []"
| "cbc_decrypt key prev (c # cs) =
     xor_bytes (aes_decrypt_block key c) prev # cbc_decrypt key c cs"

datatype cipher = Cipher bytes bytes

definition AES_block_size :: nat where
  "AES_block_size = 16"

text \<open>\<open>AES.new\<close> raises \<open>ValueError\<close> on a key that is not 16, 24 or 32 bytes long and on
  an initialization vector that is not one block long; \<open>encrypt\<close> and \<open>decrypt\<close> raise it
  on data that is not a whole number of blocks.\<close>

definition AES_new :: "bytes \<Rightarrow> bytes \<Rightarrow> exc + cipher" where
  "AES_new key iv =
     (if length key = 16 \<or> length key = 24 \<or> length key = 32 then
        (if length iv = 16 then Inr (Cipher key iv) else Inl ValueError)
      else Inl ValueError)"

fun cipher_encrypt :: "cipher \<Rightarrow> bytes \<Rightarrow> exc + bytes" where
  "cipher_encrypt (Cipher key iv) data =
     (if length data mod 16 = 0 then Inr (concat (cbc_encrypt key iv (blocks data)))
      else Inl ValueError)"

fun cipher_decrypt :: "cipher \<Rightarrow> bytes \<Rightarrow> exc + bytes" where
  "cipher_decrypt (Cipher key iv) data =
     (if length data mod 16 = 0 then Inr (concat (cbc_decrypt key iv (blocks data)))
      else Inl ValueError)"

section \<open>crypto\_handler.py\<close>

text \<open>
  The operating system's random source is an input: \<open>rng i\<close> is the \<open>i\<close>-th byte it will
  deliver. \<open>get_random_bytes n\<close> takes the next \<open>n\<close> bytes and leaves the rest.
\<close>

type_synonym entropy = "nat \<Rightarrow> byte"

definition get_random_bytes :: "nat \<Rightarrow> entropy \<Rightarrow> bytes \<times> entropy" where
  "get_random_bytes n rng = (map rng [0..<n], \<lambda>i. rng (i + n))"

definition generate_aes_key :: "entropy \<Rightarrow> bytes \<times> entropy" where
  "generate_aes_key rng = get_random_bytes AES_KEY_SIZE rng"

definition generate_aes_iv :: "entropy \<Rightarrow> bytes \<times> entropy" where
  "generate_aes_iv rng = get_random_bytes AES_IV_SIZE rng"

text \<open>
  Sequencing of steps that may raise, and the handler of every method:
  \<open>try: ... except Exception: return None\<close>.
\<close>

fun exc_bind :: "exc + 'a \<Rightarrow> ('a \<Rightarrow> exc + 'b) \<Rightarrow> exc + 'b" where
  "exc_bind (Inl e) f = Inl e"
| "exc_bind (Inr x) f = f x"

fun or_none :: "exc + 'a \<Rightarrow> 'a option" where
  "or_none (Inl e) = None"
| "or_none (Inr v) = Some v"

text \<open>The slice \<open>xs[:-n]\<close> for \<open>n \<ge> 0\<close>: \<open>xs[:-0]\<close> is \<open>xs[:0]\<close>, the empty sequence.\<close>

definition slice_to_neg :: "nat \<Rightarrow> 'a list \<Rightarrow> 'a list" where
  "slice_to_neg n xs = (if n = 0 then [] else take (length xs - n) xs)"

text \<open>The body of the \<open>try\<close> of \<open>encrypt_message\<close> (lines 96 to 110).\<close>

definition encrypt_message_try :: "entropy \<Rightarrow> pystr \<Rightarrow> bytes \<Rightarrow> exc + pystr" where
  "encrypt_message_try rng message aes_key =
     (let iv = fst (generate_aes_iv rng) in
      exc_bind (utf8_encode message) (\<lambda>message_bytes.
        let padding_length = AES_block_size - length message_bytes mod AES_block_size;
            padded_message = message_bytes @ replicate padding_length (of_nat padding_length)
        in
        exc_bind (AES_new aes_key iv) (\<lambda>cipher.
          exc_bind (cipher_encrypt cipher padded_message) (\<lambda>ciphertext.
            let encrypted_data = iv @ ciphertext in
            utf8_decode (b64encode encrypted_data)))))"

definition encrypt_message :: "entropy \<Rightarrow> pystr \<Rightarrow> bytes \<Rightarrow> pystr option \<times> entropy" where
  "encrypt_message rng message aes_key =
     (or_none (encrypt_message_try rng message aes_key), snd (generate_aes_iv rng))"

text \<open>
  The body of the \<open>try\<close> of \<open>decrypt_message\<close> (lines 120 to 135). The argument is any
  Python value: \<open>None\<close> has no \<open>encode\<close>.
\<close>

definition decrypt_message_try :: "pystr option \<Rightarrow> bytes \<Rightarrow> exc + pystr" where
  "decrypt_message_try encrypted_message_b64 aes_key =
     (case encrypted_message_b64 of
        None \<Rightarrow> Inl AttributeError
      | Some s \<Rightarrow>
          exc_bind (utf8_encode s) (\<lambda>raw.
            exc_bind (b64decode raw) (\<lambda>encrypted_data.
              let iv = take AES_IV_SIZE encrypted_data;
                  ciphertext = drop AES_IV_SIZE encrypted_data
              in
              exc_bind (AES_new aes_key iv) (\<lambda>cipher.
                exc_bind (cipher_decrypt cipher ciphertext) (\<lambda>padded_message.
                  if padded_message = [] then Inl IndexError
                  else
                    let padding_length = unat (last padded_message);
                        message = slice_to_neg padding_length padded_message
                    in utf8_decode message)))))"

definition decrypt_message :: "pystr option \<Rightarrow> bytes \<Rightarrow> pystr option" where
  "decrypt_message encrypted_message_b64 aes_key =
     or_none (decrypt_message_try encrypted_message_b64 aes_key)"

subsection \<open>The RSA operations\<close>

text \<open>
  \<open>PKCS1_OAEP\<close> and \<open>pkcs1_15\<close> are the library's; they are parameters here. A handler
  holds its private key and the public keys of its peers.
\<close>

record ('pk, 'sk) rsa_lib =
  oaep_encrypt :: "'pk \<Rightarrow> bytes \<Rightarrow> entropy \<Rightarrow> exc + bytes"
  oaep_decrypt :: "'sk \<Rightarrow> bytes \<Rightarrow> exc + bytes"
  pkcs1_15_sign :: "'sk \<Rightarrow> bytes \<Rightarrow> exc + bytes"

record ('pk, 'sk) crypto_handler =
  private_key :: "'sk option"
  peer_public_keys :: "(pystr \<times> 'pk) list"

definition encrypt_aes_key_with_rsa ::
  "('pk, 'sk) rsa_lib \<Rightarrow> ('pk, 'sk) crypto_handler \<Rightarrow> entropy \<Rightarrow> bytes \<Rightarrow> pystr \<Rightarrow> pystr option" where
  "encrypt_aes_key_with_rsa lib self rng aes_key recipient_username =
     or_none
       (case map_of (peer_public_keys self) recipient_username of
          None \<Rightarrow> Inl ValueError
        | Some peer_public_key \<Rightarrow>
            exc_bind (oaep_encrypt lib peer_public_key aes_key rng) (\<lambda>encrypted_key.
              utf8_decode (b64encode encrypted_key)))"

definition decrypt_aes_key_with_rsa ::
  "('pk, 'sk) rsa_lib \<Rightarrow> ('pk, 'sk) crypto_handler \<Rightarrow> pystr option \<Rightarrow> bytes option" where
  "decrypt_aes_key_with_rsa lib self encrypted_key_b64 =
     or_none
       (case encrypted_key_b64 of
          None \<Rightarrow> Inl AttributeError
        | Some s \<Rightarrow>
            exc_bind (utf8_encode s) (\<lambda>raw.
              exc_bind (b64decode raw) (\<lambda>encrypted_key.
                case private_key self of
                  None \<Rightarrow> Inl AttributeError
                | Some sk \<Rightarrow> oaep_decrypt lib sk encrypted_key)))"

definition sign_message ::
  "('pk, 'sk) rsa_lib \<Rightarrow> ('pk, 'sk) crypto_handler \<Rightarrow> pystr \<Rightarrow> pystr option" where
  "sign_message lib self message =
     or_none
       (exc_bind (utf8_encode message) (\<lambda>message_bytes.
          case private_key self of
            None \<Rightarrow> Inl AttributeError
          | Some sk \<Rightarrow>
              exc_bind (pkcs1_15_sign lib sk message_bytes) (\<lambda>signature.
                utf8_decode (b64encode signature))))"

subsection \<open>The keyed hash\<close>







section \<open>Facts about the relay\<close>

lemma cut_at_first:
  "sep \<noteq> [] \<Longrightarrow> hd sep \<notin> set a \<Longrightarrow> cut sep (a @ sep @ b) = Some (a, b)"
proof (induction a)
  case Nil
  then obtain x xs where sep: "sep = x # xs" by (cases sep) auto
  then show ?case by simp
next
  case (Cons c a)
  then obtain x xs where sep: "sep = x # xs" by (cases sep) auto
  with Cons.prems have "c \<noteq> x" by auto
  with sep have "take (length sep) (c # a @ sep @ b) \<noteq> sep" by auto
  with Cons show ?case by simp
qed

lemma cut_None_iff: "cut sep s = None \<longleftrightarrow> \<not> str_contains sep s"
  by (cases "cut sep s") (auto simp: str_contains_def)

lemma utf8_encode_cp_scalar: "scalar c \<Longrightarrow> \<exists>b. utf8_encode_cp c = Inr b"
  by (auto simp: scalar_def utf8_encode_cp_def)

lemma utf8_encode_cp_not_scalar: "\<not> scalar c \<Longrightarrow> utf8_encode_cp c = Inl UnicodeEncodeError"
  by (auto simp: scalar_def utf8_encode_cp_def)

lemma utf8_encode_scalar: "list_all scalar s \<Longrightarrow> \<exists>bs. utf8_encode s = Inr bs"
proof (induction s)
  case Nil
  show ?case by simp
next
  case (Cons c s)
  then obtain b bs where "utf8_encode_cp c = Inr b" "utf8_encode s = Inr bs"
    using utf8_encode_cp_scalar[of c] by auto
  then show ?case by simp
qed

lemma scalar_consts [simp]:
  "list_all scalar MSG_DELIMITER" "list_all scalar MSG_SEPARATOR"
  "list_all scalar MSG_TYPE_MESSAGE" "list_all scalar MSG_TYPE_BROADCAST"
  by (simp_all add: MSG_DELIMITER_def MSG_SEPARATOR_def MSG_TYPE_MESSAGE_def
      MSG_TYPE_BROADCAST_def asc_def scalar_def)

lemma sock_send_scalar:
  "list_all scalar msg \<Longrightarrow> sock_send ok sk msg = (if ok sk then Inr (Sent sk msg) else Inl OSError)"
  using utf8_encode_scalar[of msg] by (auto simp: sock_send_def)

lemma split_message:
  assumes "124 \<notin> set recipient"
  shows "str_split MSG_SEPARATOR 2 (MSG_TYPE_MESSAGE @ MSG_SEPARATOR @ recipient @ MSG_SEPARATOR @ payload)
         = [MSG_TYPE_MESSAGE, recipient, payload]"
proof -
  have sep: "MSG_SEPARATOR \<noteq> []" "hd MSG_SEPARATOR = 124"
    by (simp_all add: MSG_SEPARATOR_def asc_def)
  have "hd MSG_SEPARATOR \<notin> set MSG_TYPE_MESSAGE"
    by (simp add: MSG_SEPARATOR_def MSG_TYPE_MESSAGE_def asc_def)
  then have 1: "cut MSG_SEPARATOR (MSG_TYPE_MESSAGE @ MSG_SEPARATOR @ recipient @ MSG_SEPARATOR @ payload)
      = Some (MSG_TYPE_MESSAGE, recipient @ MSG_SEPARATOR @ payload)"
    using sep(1) by (rule cut_at_first[rotated])
  have 2: "cut MSG_SEPARATOR (recipient @ MSG_SEPARATOR @ payload) = Some (recipient, payload)"
    using sep assms by (intro cut_at_first) auto
  show ?thesis by (simp add: numeral_2_eq_2 1 2)
qed

lemma split_broadcast:
  assumes "\<not> str_contains MSG_SEPARATOR payload"
  shows "str_split MSG_SEPARATOR 2 (MSG_TYPE_BROADCAST @ MSG_SEPARATOR @ payload)
         = [MSG_TYPE_BROADCAST, payload]"
proof -
  have sep: "MSG_SEPARATOR \<noteq> []"
    by (simp_all add: MSG_SEPARATOR_def asc_def)
  have "hd MSG_SEPARATOR \<notin> set MSG_TYPE_BROADCAST"
    by (simp add: MSG_SEPARATOR_def MSG_TYPE_BROADCAST_def asc_def)
  then have 1: "cut MSG_SEPARATOR (MSG_TYPE_BROADCAST @ MSG_SEPARATOR @ payload)
      = Some (MSG_TYPE_BROADCAST, payload)"
    using sep(1) by (rule cut_at_first[rotated])
  have 2: "cut MSG_SEPARATOR payload = None"
    using assms by (simp add: cut_None_iff)
  show ?thesis by (simp add: numeral_2_eq_2 1 2)
qed

lemma type_consts_differ: "MSG_TYPE_MESSAGE \<noteq> MSG_TYPE_BROADCAST"
  by (simp add: MSG_TYPE_MESSAGE_def MSG_TYPE_BROADCAST_def asc_def)

lemma broadcast_loop_events:
  assumes "list_all scalar sender" "list_all scalar content"
  shows "fst (broadcast_loop ok sender content cs) =
           map (\<lambda>(u, sk). Sent sk (MSG_TYPE_BROADCAST @ MSG_SEPARATOR @ sender @ MSG_SEPARATOR @ content @ MSG_DELIMITER))
             (filter (\<lambda>(u, sk). u \<noteq> sender \<and> ok sk) cs)"
    and "snd (broadcast_loop ok sender content cs) =
           map fst (filter (\<lambda>(u, sk). u \<noteq> sender \<and> \<not> ok sk) cs)"
  using assms by (induction cs) (auto simp: sock_send_scalar split: prod.splits)

lemma fold_del_key: "fold del_key ds cs = filter (\<lambda>(u, sk). u \<notin> set ds) cs"
proof (induction ds arbitrary: cs)
  case Nil
  show ?case by simp
next
  case (Cons d ds)
  have "del_key d cs = filter (\<lambda>(u, sk). u \<noteq> d) cs"
    by (auto simp: del_key_def AList.delete_eq map_of_eq_None_iff intro!: filter_True[symmetric] filter_cong
        simp: case_prod_unfold)
  then show ?case using Cons.IH[of "del_key d cs"]
    by (auto simp: case_prod_unfold intro: filter_cong)
qed

lemma filter_keys_distinct:
  assumes "distinct (map fst cs)"
  shows "filter (\<lambda>(u, sk). u \<notin> set (map fst (filter (\<lambda>(u, sk). P u sk) cs))) cs
         = filter (\<lambda>(u, sk). \<not> P u sk) cs"
proof (rule filter_cong[OF refl])
  fix x assume x: "x \<in> set cs"
  obtain u sk where [simp]: "x = (u, sk)" by (cases x)
  have "u \<in> set (map fst (filter (\<lambda>(u, sk). P u sk) cs)) \<longleftrightarrow> P u sk"
  proof
    assume "u \<in> set (map fst (filter (\<lambda>(u, sk). P u sk) cs))"
    then obtain sk' where "(u, sk') \<in> set cs" "P u sk'" by auto
    with assms x have "sk' = sk" by (auto dest: eq_key_imp_eq_value)
    with \<open>P u sk'\<close> show "P u sk" by simp
  next
    assume "P u sk"
    with x show "u \<in> set (map fst (filter (\<lambda>(u, sk). P u sk) cs))" by force
  qed
  then show "(case x of (u, sk) \<Rightarrow> u \<notin> set (map fst (filter (\<lambda>(u, sk). P u sk) cs)))
             = (case x of (u, sk) \<Rightarrow> \<not> P u sk)" by simp
qed

lemma map_of_filter_none:
  assumes "distinct (map fst cs)" and "(t, sk) \<in> set cs" and "\<not> P t sk"
  shows "map_of (filter (\<lambda>(u, k). P u k) cs) t = None"
proof -
  have "t \<notin> fst ` set (filter (\<lambda>(u, k). P u k) cs)"
  proof
    assume "t \<in> fst ` set (filter (\<lambda>(u, k). P u k) cs)"
    then obtain sk' where m: "(t, sk') \<in> set cs" and p: "P t sk'" by auto
    from assms(1) m assms(2) have "sk' = sk" by (rule eq_key_imp_eq_value)
    with p assms(3) show False by simp
  qed
  then show ?thesis by (simp add: map_of_eq_None_iff)
qed

text \<open>
  Claim C6. A BROADCAST from \<open>sender\<close> is written to the socket of every registered session
  other than \<open>sender\<close> and to no other socket, in the directory's order, and a target
  whose \<open>send\<close> raises does not keep the others from being served. Of that target's entry,
  though, \<open>broadcast_message\<close> deletes the socket in \<open>clients\<close> only: its public key and
  its address stay in \<open>public_keys\<close> and \<open>client_addresses\<close>, where the claim has the entry
  removed from the directory, as the \<open>finally\<close> block of \<open>handle_client\<close> removes it from
  all three. (\<open>sender\<close> and the payload come out of \<open>decode('utf-8')\<close>, so they hold scalar
  values only; the directory has one entry per name.)
\<close>

theorem C6_broadcast_message:
  assumes "list_all scalar sender" and "list_all scalar encrypted_content"
    and "distinct (map fst (clients s))"
  shows "broadcast_message ok s sender encrypted_content =
           (s\<lparr>clients := filter (\<lambda>(u, sk). u = sender \<or> ok sk) (clients s)\<rparr>,
            map (\<lambda>(u, sk). Sent sk (MSG_TYPE_BROADCAST @ MSG_SEPARATOR @ sender @ MSG_SEPARATOR
                                      @ encrypted_content @ MSG_DELIMITER))
              (filter (\<lambda>(u, sk). u \<noteq> sender \<and> ok sk) (clients s)))
         \<and> (\<forall>target sk. (target, sk) \<in> set (clients s) \<and> target \<noteq> sender \<and> \<not> ok sk \<longrightarrow>
               (let s' = fst (broadcast_message ok s sender encrypted_content)
                in map_of (clients s') target = None
                   \<and> map_of (public_keys s') target = map_of (public_keys s) target
                   \<and> map_of (client_addresses s') target = map_of (client_addresses s) target))"
proof -
  have "filter (\<lambda>(u, sk). \<not> (u \<noteq> sender \<and> \<not> ok sk)) (clients s)
        = filter (\<lambda>(u, sk). u = sender \<or> ok sk) (clients s)"
    by (rule filter_cong) auto
  then have eq: "broadcast_message ok s sender encrypted_content =
           (s\<lparr>clients := filter (\<lambda>(u, sk). u = sender \<or> ok sk) (clients s)\<rparr>,
            map (\<lambda>(u, sk). Sent sk (MSG_TYPE_BROADCAST @ MSG_SEPARATOR @ sender @ MSG_SEPARATOR
                                      @ encrypted_content @ MSG_DELIMITER))
              (filter (\<lambda>(u, sk). u \<noteq> sender \<and> ok sk) (clients s)))"
    using broadcast_loop_events[OF assms(1,2), of ok "clients s"]
      filter_keys_distinct[OF assms(3), of "\<lambda>u sk. u \<noteq> sender \<and> \<not> ok sk"]
    by (simp add: broadcast_message_def fold_del_key case_prod_unfold)
  have gone: "map_of (filter (\<lambda>(u, sk). u = sender \<or> ok sk) (clients s)) target = None"
    if "(target, sk) \<in> set (clients s)" "target \<noteq> sender" "\<not> ok sk" for target sk
    using map_of_filter_none[OF assms(3) that(1), of "\<lambda>u sk. u = sender \<or> ok sk"] that(2,3)
    by simp
  show ?thesis
  proof (intro conjI allI impI)
    show "broadcast_message ok s sender encrypted_content =
           (s\<lparr>clients := filter (\<lambda>(u, sk). u = sender \<or> ok sk) (clients s)\<rparr>,
            map (\<lambda>(u, sk). Sent sk (MSG_TYPE_BROADCAST @ MSG_SEPARATOR @ sender @ MSG_SEPARATOR
                                      @ encrypted_content @ MSG_DELIMITER))
              (filter (\<lambda>(u, sk). u \<noteq> sender \<and> ok sk) (clients s)))"
      by (rule eq)
  next
    fix target sk
    assume "(target, sk) \<in> set (clients s) \<and> target \<noteq> sender \<and> \<not> ok sk"
    then have "map_of (filter (\<lambda>(u, sk). u = sender \<or> ok sk) (clients s)) target = None"
      using gone by blast
    then show "let s' = fst (broadcast_message ok s sender encrypted_content)
                in map_of (clients s') target = None
                   \<and> map_of (public_keys s') target = map_of (public_keys s) target
                   \<and> map_of (client_addresses s') target = map_of (client_addresses s) target"
      by (simp add: eq Let_def)
  qed
qed

text \<open>
  Four sessions, the third one's socket is dead: B and D get the envelope, C is no longer
  in \<open>clients\<close>, and C's address and public key are where they were.
\<close>

theorem C6_broadcast_message_witness:
  "broadcast_message (\<lambda>sk. sk \<noteq> 3)
     \<lparr>clients = [(asc ''A'', 1), (asc ''B'', 2), (asc ''C'', 3), (asc ''D'', 4)],
      client_addresses = [(asc ''A'', (asc ''10.0.0.1'', 5001)), (asc ''B'', (asc ''10.0.0.2'', 5002)),
                          (asc ''C'', (asc ''10.0.0.3'', 5003)), (asc ''D'', (asc ''10.0.0.4'', 5004))],
      public_keys = [(asc ''A'', asc ''PEMA''), (asc ''B'', asc ''PEMB''),
                     (asc ''C'', asc ''PEMC''), (asc ''D'', asc ''PEMD'')]\<rparr>
     (asc ''A'') (asc ''QUJD'')
   = (\<lparr>clients = [(asc ''A'', 1), (asc ''B'', 2), (asc ''D'', 4)],
       client_addresses = [(asc ''A'', (asc ''10.0.0.1'', 5001)), (asc ''B'', (asc ''10.0.0.2'', 5002)),
                           (asc ''C'', (asc ''10.0.0.3'', 5003)), (asc ''D'', (asc ''10.0.0.4'', 5004))],
       public_keys = [(asc ''A'', asc ''PEMA''), (asc ''B'', asc ''PEMB''),
                      (asc ''C'', asc ''PEMC''), (asc ''D'', asc ''PEMD'')]\<rparr>,
      [Sent 2 (asc ''BROADCAST||A||QUJD'' @ MSG_DELIMITER),
       Sent 4 (asc ''BROADCAST||A||QUJD'' @ MSG_DELIMITER)])"
  using C6_broadcast_message[of "asc ''A''" "asc ''QUJD''"
      "\<lparr>clients = [(asc ''A'', 1), (asc ''B'', 2), (asc ''C'', 3), (asc ''D'', 4)],
        client_addresses = [(asc ''A'', (asc ''10.0.0.1'', 5001)), (asc ''B'', (asc ''10.0.0.2'', 5002)),
                            (asc ''C'', (asc ''10.0.0.3'', 5003)), (asc ''D'', (asc ''10.0.0.4'', 5004))],
        public_keys = [(asc ''A'', asc ''PEMA''), (asc ''B'', asc ''PEMB''),
                       (asc ''C'', asc ''PEMC''), (asc ''D'', asc ''PEMD'')]\<rparr>" "\<lambda>sk. sk \<noteq> 3"]
  by (simp add: asc_def scalar_def MSG_TYPE_BROADCAST_def MSG_SEPARATOR_def)

text \<open>
  What the entry left behind does: after that broadcast a new session E registers on
  socket 5 and is sent, among the keys of the sessions on line, the key of C.
\<close>

lemma removed_target_key_is_sent:
  "Sent 5 (asc ''KEY_EXCHANGE||C||PEMC'' @ MSG_DELIMITER)
     \<in> set (snd (handle_client (\<lambda>sk. sk \<noteq> 3) (\<lambda>names. [])
          (fst (broadcast_message (\<lambda>sk. sk \<noteq> 3)
             \<lparr>clients = [(asc ''A'', 1), (asc ''B'', 2), (asc ''C'', 3)],
              client_addresses = [(asc ''A'', (asc ''10.0.0.1'', 5001)),
                                  (asc ''B'', (asc ''10.0.0.2'', 5002)),
                                  (asc ''C'', (asc ''10.0.0.3'', 5003))],
              public_keys = [(asc ''A'', asc ''PEMA''), (asc ''B'', asc ''PEMB''),
                             (asc ''C'', asc ''PEMC'')]\<rparr>
             (asc ''A'') (asc ''QUJD'')))
          5 (asc ''10.0.0.5'', 5005) (Data (asc ''AUTH||E||PEME'')) []))"
  by code_simp

text \<open>
  Claim C7. Routing \<open>MESSAGE||recipient||payload\<close> writes one envelope, to the socket of
  \<open>recipient\<close> only, whose payload field is \<open>payload\<close> unchanged and whose sender field is
  the handler's authenticated \<open>sender\<close>; nothing is written, and the state is unchanged,
  when \<open>recipient\<close> is not registered. Routing \<open>BROADCAST||payload\<close> writes the payload
  unchanged, stamped with \<open>sender\<close>, to every other registered session. (A recipient name
  holds no \<open>|\<close>; a broadcast payload holds no separator, as base-64 text never does.)
\<close>

theorem C7_route_message:
  assumes "list_all scalar sender" and "list_all scalar payload"
  shows "(124 \<notin> set recipient \<longrightarrow>
            route_message ok s sender
              (MSG_TYPE_MESSAGE @ MSG_SEPARATOR @ recipient @ MSG_SEPARATOR @ payload)
            = (s, case map_of (clients s) recipient of
                    None \<Rightarrow> []
                  | Some sk \<Rightarrow>
                      if ok sk
                      then [Sent sk (MSG_TYPE_MESSAGE @ MSG_SEPARATOR @ sender @ MSG_SEPARATOR
                                       @ payload @ MSG_DELIMITER)]
                      else []))
       \<and> (\<not> str_contains MSG_SEPARATOR payload \<longrightarrow>
            snd (route_message ok s sender (MSG_TYPE_BROADCAST @ MSG_SEPARATOR @ payload))
            = map (\<lambda>(u, sk). Sent sk (MSG_TYPE_BROADCAST @ MSG_SEPARATOR @ sender @ MSG_SEPARATOR
                                        @ payload @ MSG_DELIMITER))
                (filter (\<lambda>(u, sk). u \<noteq> sender \<and> ok sk) (clients s)))"
proof (intro conjI impI)
  assume r: "124 \<notin> set recipient"
  have "list_all scalar (MSG_TYPE_MESSAGE @ MSG_SEPARATOR @ sender @ MSG_SEPARATOR @ payload @ MSG_DELIMITER)"
    using assms by simp
  then show "route_message ok s sender
              (MSG_TYPE_MESSAGE @ MSG_SEPARATOR @ recipient @ MSG_SEPARATOR @ payload)
            = (s, case map_of (clients s) recipient of
                    None \<Rightarrow> []
                  | Some sk \<Rightarrow>
                      if ok sk
                      then [Sent sk (MSG_TYPE_MESSAGE @ MSG_SEPARATOR @ sender @ MSG_SEPARATOR
                                       @ payload @ MSG_DELIMITER)]
                      else [])"
    by (simp add: route_message_def split_message[OF r] type_consts_differ
        send_direct_message_def sock_send_scalar split: option.splits)
next
  assume p: "\<not> str_contains MSG_SEPARATOR payload"
  show "snd (route_message ok s sender (MSG_TYPE_BROADCAST @ MSG_SEPARATOR @ payload))
            = map (\<lambda>(u, sk). Sent sk (MSG_TYPE_BROADCAST @ MSG_SEPARATOR @ sender @ MSG_SEPARATOR
                                        @ payload @ MSG_DELIMITER))
                (filter (\<lambda>(u, sk). u \<noteq> sender \<and> ok sk) (clients s))"
    using broadcast_loop_events(1)[OF assms, of ok "clients s"]
    by (simp add: route_message_def split_broadcast[OF p] broadcast_message_def case_prod_unfold)
qed

text \<open>A direct message from A to B, and a broadcast from A, among A, B and C.\<close>

theorem C7_route_message_witness:
  "route_message (\<lambda>sk. True)
      \<lparr>clients = [(asc ''A'', 1), (asc ''B'', 2), (asc ''C'', 3)], client_addresses = [],
       public_keys = []\<rparr> (asc ''A'') (asc ''MESSAGE||B||QUJD'')
    = (\<lparr>clients = [(asc ''A'', 1), (asc ''B'', 2), (asc ''C'', 3)], client_addresses = [],
        public_keys = []\<rparr>,
       [Sent 2 (asc ''MESSAGE||A||QUJD'' @ MSG_DELIMITER)])
   \<and> snd (route_message (\<lambda>sk. True)
      \<lparr>clients = [(asc ''A'', 1), (asc ''B'', 2), (asc ''C'', 3)], client_addresses = [],
       public_keys = []\<rparr> (asc ''A'') (asc ''BROADCAST||QUJD''))
    = [Sent 2 (asc ''BROADCAST||A||QUJD'' @ MSG_DELIMITER),
       Sent 3 (asc ''BROADCAST||A||QUJD'' @ MSG_DELIMITER)]"
  using C7_route_message[of "asc ''A''" "asc ''QUJD''" "asc ''B''" "\<lambda>sk. True"
      "\<lparr>clients = [(asc ''A'', 1), (asc ''B'', 2), (asc ''C'', 3)], client_addresses = [],
        public_keys = []\<rparr>"]
  by (simp add: asc_def scalar_def str_contains_def MSG_TYPE_MESSAGE_def
      MSG_TYPE_BROADCAST_def MSG_SEPARATOR_def)

lemma split_three:
  assumes "124 \<notin> set t" and "124 \<notin> set r"
  shows "str_split MSG_SEPARATOR 2 (t @ MSG_SEPARATOR @ r @ MSG_SEPARATOR @ p) = [t, r, p]"
proof -
  have sep: "MSG_SEPARATOR \<noteq> []" "hd MSG_SEPARATOR = 124"
    by (simp_all add: MSG_SEPARATOR_def asc_def)
  have 1: "cut MSG_SEPARATOR (t @ MSG_SEPARATOR @ r @ MSG_SEPARATOR @ p)
      = Some (t, r @ MSG_SEPARATOR @ p)"
    using sep assms by (intro cut_at_first) auto
  have 2: "cut MSG_SEPARATOR (r @ MSG_SEPARATOR @ p) = Some (r, p)"
    using sep assms by (intro cut_at_first) auto
  show ?thesis by (simp add: numeral_2_eq_2 1 2)
qed

lemma map_of_del_key [simp]: "map_of (del_key u d) u = None"
  by (auto simp: del_key_def AList.delete_eq map_of_eq_None_iff)

lemma map_of_fold_del_key: "map_of d u = None \<Longrightarrow> map_of (fold del_key ds d) u = None"
  by (force simp: fold_del_key map_of_eq_None_iff)

lemma broadcast_user_list_absent:
  "map_of (clients s) u = None \<Longrightarrow> map_of (clients (fst (broadcast_user_list ok j s))) u = None"
  by (simp add: broadcast_user_list_def Let_def case_prod_unfold map_of_fold_del_key)

lemma broadcast_user_list_others:
  "client_addresses (fst (broadcast_user_list ok j s)) = client_addresses s"
  "public_keys (fst (broadcast_user_list ok j s)) = public_keys s"
  by (simp_all add: broadcast_user_list_def Let_def case_prod_unfold)

lemma finally_evicts:
  assumes "u \<noteq> []"
  shows "map_of (clients (fst (handle_client_finally ok j s (Some u) sk))) u = None"
    and "map_of (client_addresses (fst (handle_client_finally ok j s (Some u) sk))) u = None"
    and "map_of (public_keys (fst (handle_client_finally ok j s (Some u) sk))) u = None"
  using assms
  by (simp_all add: handle_client_finally_def Let_def case_prod_unfold broadcast_user_list_absent
      broadcast_user_list_others)

text \<open>
  Claim C5. The claim says that a registration with a name already in the directory is
  rejected and never evicts the existing entry. The handler does reject it, but line 94
  has already assigned \<open>username\<close> when line 104 returns, so the \<open>finally\<close> block deletes
  the entries of that name: after the duplicate attempt the name is in none of the three
  dictionaries.
\<close>

theorem C5_duplicate_attempt_evicts:
  assumes "map_of (clients s) username \<noteq> None" and "username \<noteq> []" and "124 \<notin> set username"
  shows "(let s' = fst (handle_client ok json_dumps s client_socket address
                     (Data (MSG_TYPE_AUTH @ MSG_SEPARATOR @ username @ MSG_SEPARATOR
                              @ public_key_pem)) msgs)
          in map_of (clients s') username = None
             \<and> map_of (client_addresses s') username = None
             \<and> map_of (public_keys s') username = None)"
proof -
  have t: "124 \<notin> set MSG_TYPE_AUTH" by (simp add: MSG_TYPE_AUTH_def asc_def)
  have ne: "MSG_TYPE_AUTH @ MSG_SEPARATOR @ username @ MSG_SEPARATOR @ public_key_pem \<noteq> []"
    by (simp add: MSG_TYPE_AUTH_def asc_def)
  show ?thesis
    using assms(1) ne finally_evicts[OF assms(2)]
    by (auto simp: handle_client_def split_three[OF t assms(3)] Let_def case_prod_unfold
        split: sum.splits)
qed

text \<open>
  Alice is registered on socket 1; a second connection (socket 2) sends
  \<open>AUTH||Alice||PEM2\<close>. It is told that the name is taken, and Alice's entry is gone.
\<close>

theorem C5_duplicate_attempt_evicts_witness:
  "handle_client (\<lambda>sk. True) (\<lambda>names. [])
     \<lparr>clients = [(asc ''Alice'', 1)],
      client_addresses = [(asc ''Alice'', (asc ''10.0.0.5'', 50000))],
      public_keys = [(asc ''Alice'', asc ''PEM1'')]\<rparr>
     2 (asc ''10.0.0.6'', 50001) (Data (asc ''AUTH||Alice||PEM2'')) []
   = (\<lparr>clients = [], client_addresses = [], public_keys = []\<rparr>,
      [Sent 2 (asc ''ERROR: Username '' @ [39] @ asc ''Alice'' @ [39] @ asc '' already taken''
                 @ MSG_DELIMITER),
       Closed 2, Closed 2])"
  using C5_duplicate_attempt_evicts[of
      "\<lparr>clients = [(asc ''Alice'', 1)],
        client_addresses = [(asc ''Alice'', (asc ''10.0.0.5'', 50000))],
        public_keys = [(asc ''Alice'', asc ''PEM1'')]\<rparr>" "asc ''Alice''"
      "\<lambda>sk. True" "\<lambda>names. []" 2 "(asc ''10.0.0.6'', 50001)" "asc ''PEM2''" "[]"]
  by (simp add: handle_client_def handle_client_finally_def broadcast_user_list_def
      sock_send_def del_key_def utf8_encode_cp_def
      asc_def MSG_TYPE_AUTH_def MSG_SEPARATOR_def MSG_DELIMITER_def numeral_2_eq_2)

subsection \<open>The registration step\<close>

lemma update_fresh: "map_of al k = None \<Longrightarrow> AList.update k v al = al @ [(k, v)]"
  by (induction al) (auto split: if_splits)

lemma register_client_fresh:
  assumes "map_of (clients s) username = None"
  shows "length (clients (register_client s username sk a pk)) = Suc (length (clients s))"
    and "map_of (clients (register_client s username sk a pk)) = (map_of (clients s))(username \<mapsto> sk)"
proof -
  show "length (clients (register_client s username sk a pk)) = Suc (length (clients s))"
    using assms by (simp add: register_client_def update_fresh)
  show "map_of (clients (register_client s username sk a pk)) = (map_of (clients s))(username \<mapsto> sk)"
    by (simp add: register_client_def AList.update_conv')
qed

lemma register_client_distinct:
  "distinct (map fst (clients s)) \<Longrightarrow> distinct (map fst (clients (register_client s username sk a pk)))"
  by (simp add: register_client_def distinct_update)

text \<open>
  Registrations one after the other, as the lock orders them: each entry of \<open>regs\<close> is a
  name with its socket, address and public key.
\<close>

lemma fold_register_clients:
  "distinct (map fst (clients s)) \<Longrightarrow> distinct (map fst regs)
   \<Longrightarrow> list_all (\<lambda>r. map_of (clients s) (fst r) = None) regs
   \<Longrightarrow> length (clients (fold (\<lambda>(u, sk, a, pk) s. register_client s u sk a pk) regs s))
         = length (clients s) + length regs
       \<and> distinct (map fst (clients (fold (\<lambda>(u, sk, a, pk) s. register_client s u sk a pk) regs s)))"
proof (induction regs arbitrary: s)
  case Nil
  then show ?case by simp
next
  case (Cons r regs)
  obtain u sk a pk where r: "r = (u, sk, a, pk)" by (cases r)
  let ?s = "register_client s u sk a pk"
  have f: "map_of (clients s) u = None" using Cons.prems(3) r by simp
  have 1: "distinct (map fst (clients ?s))" using Cons.prems(1) by (rule register_client_distinct)
  have 2: "list_all (\<lambda>r. map_of (clients ?s) (fst r) = None) regs"
    using Cons.prems(2,3) r by (auto simp: register_client_fresh(2)[OF f] list_all_iff)
  have 3: "distinct (map fst regs)" using Cons.prems(2) by simp
  from Cons.IH[OF 1 3 2] register_client_fresh(1)[OF f, of sk a pk] show ?case
    by (simp add: r)
qed

text \<open>
  The registration step by itself keeps the directory as the claim wants it: from the
  empty directory, registering \<open>N\<close> distinct names leaves exactly \<open>N\<close> entries, one per
  name.
\<close>

lemma registrations_counted:
  assumes "distinct (map fst regs)"
  shows "length (clients (fold (\<lambda>(u, sk, a, pk) s. register_client s u sk a pk) regs
            \<lparr>clients = [], client_addresses = [], public_keys = []\<rparr>)) = length regs
       \<and> distinct (map fst (clients (fold (\<lambda>(u, sk, a, pk) s. register_client s u sk a pk) regs
            \<lparr>clients = [], client_addresses = [], public_keys = []\<rparr>)))"
  using fold_register_clients[of "\<lparr>clients = [], client_addresses = [], public_keys = []\<rparr>" regs] assms
  by (simp add: list_all_iff)

lemma registrations_counted_example:
  "length (clients (fold (\<lambda>(u, sk, a, pk) s. register_client s u sk a pk)
      [(asc ''Alice'', 1, (asc ''10.0.0.5'', 50000), asc ''PEM1''),
       (asc ''Bob'', 2, (asc ''10.0.0.6'', 50001), asc ''PEM2'')]
      \<lparr>clients = [], client_addresses = [], public_keys = []\<rparr>)) = 2"
proof -
  have d: "distinct (map fst [(asc ''Alice'', 1 :: nat, (asc ''10.0.0.5'', 50000 :: nat), asc ''PEM1''),
       (asc ''Bob'', 2, (asc ''10.0.0.6'', 50001), asc ''PEM2'')])"
    by (simp add: asc_def)
  show ?thesis using registrations_counted[OF d] by simp
qed

section \<open>Facts about the receive loop\<close>

text \<open>
  \<open>extract_messages\<close> is written with \<open>cut\<close>; the source tests \<open>MSG_DELIMITER in buffer\<close>
  and unpacks \<open>buffer.split(MSG_DELIMITER, 1)\<close>, which is the same.
\<close>

lemma split1_cut:
  "str_contains sep s \<Longrightarrow> str_split sep 1 s = [a, b] \<longleftrightarrow> cut sep s = Some (a, b)"
  by (cases "cut sep s") (auto simp: str_contains_def)

lemma cut_append:
  "cut sep s = Some (a, b) \<Longrightarrow> cut sep (s @ d) = Some (a, b @ d)"
proof (induction s arbitrary: a)
  case Nil
  then show ?case by (cases d) (auto split: if_splits)
next
  case (Cons c cs)
  show ?case
  proof (cases "take (length sep) (c # cs) = sep")
    case True
    from arg_cong[OF True, of length] have len: "length sep \<le> length (c # cs)"
      by simp
    then have "take (length sep) ((c # cs) @ d) = take (length sep) (c # cs)"
      by (simp del: append_Cons)
    with True have "take (length sep) ((c # cs) @ d) = sep" by simp
    moreover from len have "drop (length sep) ((c # cs) @ d) = drop (length sep) (c # cs) @ d"
      by (simp del: append_Cons)
    ultimately show ?thesis using True Cons.prems by (simp del: take_Suc_Cons drop_Suc_Cons)
  next
    case False
    with Cons.prems obtain a' where a': "cut sep cs = Some (a', b)" "a = c # a'"
      by (auto split: prod.splits)
    from a' have "cs = a' @ sep @ b" by (simp add: cut_Some_append)
    from arg_cong[OF this, of length] have len: "length sep \<le> length cs" by simp
    have "take (length sep) ((c # cs) @ d) = take (length sep) (c # cs)"
      using len by (simp del: append_Cons)
    with False Cons.IH[OF a'(1)] a' show ?thesis by simp
  qed
qed

lemma extract_messages_append:
  "extract_messages (s @ d) =
     (fst (extract_messages s) @ fst (extract_messages (snd (extract_messages s) @ d)),
      snd (extract_messages (snd (extract_messages s) @ d)))"
proof (induction s rule: extract_messages.induct)
  case (1 buffer)
  show ?case
  proof (cases "cut MSG_DELIMITER buffer")
    case None
    then show ?thesis by (simp add: extract_messages.simps[of buffer])
  next
    case (Some p)
    obtain m b where p: "p = (m, b)" by (cases p)
    with Some have c: "cut MSG_DELIMITER (buffer @ d) = Some (m, b @ d)" by (simp add: cut_append)
    from "1.IH"[OF Some p[symmetric]] Some p c show ?thesis
      by (simp add: extract_messages.simps[of buffer] extract_messages.simps[of "buffer @ d"]
          case_prod_unfold Let_def)
  qed
qed

lemma extract_messages_rest: "cut MSG_DELIMITER (snd (extract_messages s)) = None"
proof (induction s rule: extract_messages.induct)
  case (1 buffer)
  show ?case
  proof (cases "cut MSG_DELIMITER buffer")
    case None
    then show ?thesis by (simp add: extract_messages.simps[of buffer])
  next
    case (Some p)
    obtain m b where p: "p = (m, b)" by (cases p)
    from "1.IH"[OF Some p[symmetric]] Some p show ?thesis
      by (simp add: extract_messages.simps[of buffer] case_prod_unfold Let_def)
  qed
qed

lemma extract_messages_idle: "cut MSG_DELIMITER b = None \<Longrightarrow> extract_messages b = ([], b)"
  by (simp add: extract_messages.simps[of b])

lemma receive_loop_stream:
  assumes "list_all (\<lambda>d. d \<noteq> []) chunks" and "cut MSG_DELIMITER b = None"
  shows "receive_loop b (map Data chunks) = extract_messages (b @ concat chunks)"
  using assms
proof (induction chunks arbitrary: b)
  case Nil
  then show ?case by (simp add: extract_messages_idle)
next
  case (Cons d ds)
  let ?b1 = "snd (extract_messages (b @ d))"
  have "receive_loop ?b1 (map Data ds) = extract_messages (?b1 @ concat ds)"
    using Cons.prems by (intro Cons.IH) (simp_all add: extract_messages_rest)
  then show ?case
    using Cons.prems extract_messages_append[of "b @ d" "concat ds"]
    by (simp add: case_prod_unfold Let_def)
qed

lemma str_split_nonempty: "str_split sep n s \<noteq> []"
  by (cases n) (auto split: option.splits)

lemma extract_messages_spans:
  "length s \<le> n \<Longrightarrow>
   extract_messages s =
     (filter (\<lambda>m. str_strip m \<noteq> []) (butlast (str_split MSG_DELIMITER n s)),
      last (str_split MSG_DELIMITER n s))"
proof (induction s arbitrary: n rule: extract_messages.induct)
  case (1 buffer)
  show ?case
  proof (cases "cut MSG_DELIMITER buffer")
    case None
    then show ?thesis by (cases n) (simp_all add: extract_messages.simps[of buffer])
  next
    case (Some p)
    obtain m b where p: "p = (m, b)" by (cases p)
    with Some have lt: "length b < length buffer"
      by (simp add: cut_shorter MSG_DELIMITER_nonempty)
    with "1.prems" obtain k where n: "n = Suc k" "length b \<le> k" by (cases n) auto
    from "1.IH"[OF Some p[symmetric] n(2)] Some p n show ?thesis
      by (simp add: extract_messages.simps[of buffer] str_split_nonempty Let_def)
  qed
qed

text \<open>
  Claim C8, as the code has it. For reads that each return some text, what
  \<open>receive_messages\<close> passes to \<open>process_message\<close> is, in order, every complete
  delimiter-terminated span of the whole stream whose \<open>strip()\<close> is non-empty, each passed
  as it arrived (not trimmed); the partial span after the last delimiter stays in the
  buffer. The list of reads is any list, so this holds after every read: a span is passed
  only once the reads so far hold its delimiter.
\<close>

theorem C8_receive_messages:
  assumes "list_all (\<lambda>d. d \<noteq> []) chunks"
  shows "receive_messages (map Data chunks) =
           (filter (\<lambda>m. str_strip m \<noteq> []) (butlast (spans (concat chunks))),
            last (spans (concat chunks)))"
proof -
  have "cut MSG_DELIMITER [] = None" by (simp add: MSG_DELIMITER_def)
  then show ?thesis
    using receive_loop_stream[OF assms, of "[]"] extract_messages_spans[of "concat chunks"]
    by (simp add: receive_messages_def spans_def)
qed

text \<open>
  Three reads; the first delimiter is cut twice by the ends of reads, the second span is
  empty, the third starts with a blank, the fourth is not complete.
\<close>

theorem C8_receive_messages_witness:
  "receive_messages
     (map Data [asc ''USER_LIST||[]'' @ [10], asc ''###MSG###'',
                10 # 10 # asc ''###MSG###'' @ [10] @ asc '' hi'' @ MSG_DELIMITER @ asc ''KEY''])
   = ([asc ''USER_LIST||[]'', asc '' hi''], asc ''KEY'')"
proof -
  let ?chunks = "[asc ''USER_LIST||[]'' @ [10], asc ''###MSG###'',
                10 # 10 # asc ''###MSG###'' @ [10] @ asc '' hi'' @ MSG_DELIMITER @ asc ''KEY'']"
  have h: "list_all (\<lambda>d. d \<noteq> []) ?chunks" by (simp add: asc_def)
  have v: "(filter (\<lambda>m. str_strip m \<noteq> []) (butlast (spans (concat ?chunks))),
            last (spans (concat ?chunks))) = ([asc ''USER_LIST||[]'', asc '' hi''], asc ''KEY'')"
    by code_simp
  show ?thesis using C8_receive_messages[OF h] v by simp
qed

text \<open>
  Claim C8 as stated has each span trimmed and then handed on. The span \<open>" hi"\<close> is handed
  on with its blank: line 107 passes the original (as its comment says).
\<close>

theorem C8_trimmed_counterexample:
  "fst (receive_messages [Data (asc '' hi'' @ MSG_DELIMITER)])
     \<noteq> filter (\<lambda>m. m \<noteq> []) (map str_strip (butlast (spans (asc '' hi'' @ MSG_DELIMITER))))"
  by code_simp

section \<open>Facts about the block cipher\<close>

lemma sbox_tables_inverse:
  "list_all (\<lambda>n. inv_sbox_table ! unat (sbox_table ! n) = (of_nat n :: byte)) [0..<256]"
  by code_simp

lemma inv_sbox_sbox: "inv_sbox (sbox x) = x"
proof -
  have "unat x < 2 ^ LENGTH(8)" by (rule unsigned_less)
  then have "unat x < 256" by simp
  then have "unat x \<in> set [0..<256]" by simp
  with sbox_tables_inverse have "inv_sbox_table ! unat (sbox_table ! unat x) = (of_nat (unat x) :: byte)"
    unfolding list_all_iff by blast
  then show ?thesis by (simp add: inv_sbox_def sbox_def)
qed

lemma xtime_xor: "xtime (a XOR b) = xtime a XOR xtime b"
  by (simp add: xtime_def bit_xor_iff push_bit_xor xor.assoc xor.left_commute)

lemma xor_cancel_left: "(x::byte) XOR (x XOR y) = y"
  by (simp add: xor.assoc[symmetric])

lemma inv_mix_column_mix_column:
  "inv_mix_column (mix_column a b c d ! 0) (mix_column a b c d ! 1) (mix_column a b c d ! 2)
     (mix_column a b c d ! 3) = [a, b, c, d]"
  by (simp add: inv_mix_column_def mix_column_def mul3_def mul9_def mul11_def mul13_def mul14_def
      xtime_xor xor_cancel_left xor.assoc xor.commute xor.left_commute)


lemma length16:
  assumes "length s = 16"
  obtains s0 s1 s2 s3 s4 s5 s6 s7 s8 s9 s10 s11 s12 s13 s14 s15
  where "s = [s0, s1, s2, s3, s4, s5, s6, s7, s8, s9, s10, s11, s12, s13, s14, s15]"
proof -
  from assms have "s = map (\<lambda>i. s ! i) [0..<16]"
    by (metis map_nth)
  also have "[0..<16] = [0, 1, 2, 3, 4, 5, 6, 7, 8, 9, 10, 11, 12, 13, 14, 15::nat]"
    by code_simp
  finally show ?thesis using that by simp
qed

lemma inv_shift_rows_shift_rows: "length s = 16 \<Longrightarrow> inv_shift_rows (shift_rows s) = s"
  by (erule length16) (simp add: inv_shift_rows_def shift_rows_def)

lemma length_shift_rows [simp]: "length (shift_rows s) = 16"
  by (simp add: shift_rows_def)

lemma length_mix_columns [simp]: "length (mix_columns s) = 16"
  by (simp add: mix_columns_def mix_column_def)

lemma length_sub_bytes [simp]: "length (sub_bytes s) = length s"
  by (simp add: sub_bytes_def)

lemma inv_sub_bytes_sub_bytes: "inv_sub_bytes (sub_bytes s) = s"
  by (simp add: inv_sub_bytes_def sub_bytes_def inv_sbox_sbox map_idI)

lemma inv_mix_columns_mix_columns: "length s = 16 \<Longrightarrow> inv_mix_columns (mix_columns s) = s"
proof (erule length16)
  fix s0 s1 s2 s3 s4 s5 s6 s7 s8 s9 s10 s11 s12 s13 s14 s15
  assume s: "s = [s0, s1, s2, s3, s4, s5, s6, s7, s8, s9, s10, s11, s12, s13, s14, s15]"
  have nth: "\<And>a b c d r. length r = 4 \<Longrightarrow>
     (mix_column a b c d @ r) ! 0 = mix_column a b c d ! 0
     \<and> (mix_column a b c d @ r) ! 1 = mix_column a b c d ! 1
     \<and> (mix_column a b c d @ r) ! 2 = mix_column a b c d ! 2
     \<and> (mix_column a b c d @ r) ! 3 = mix_column a b c d ! 3"
    by (simp add: mix_column_def)
  let ?m = "mix_columns s"
  have m: "?m = mix_column s0 s1 s2 s3 @ mix_column s4 s5 s6 s7 @ mix_column s8 s9 s10 s11
            @ mix_column s12 s13 s14 s15"
    by (simp add: mix_columns_def s)
  have len: "\<And>a b c d. length (mix_column a b c d) = 4" by (simp add: mix_column_def)
  have c0: "inv_mix_column (?m ! 0) (?m ! 1) (?m ! 2) (?m ! 3) = [s0, s1, s2, s3]"
    unfolding m using inv_mix_column_mix_column[of s0 s1 s2 s3]
    by (simp add: nth_append len)
  have c1: "inv_mix_column (?m ! 4) (?m ! 5) (?m ! 6) (?m ! 7) = [s4, s5, s6, s7]"
    unfolding m using inv_mix_column_mix_column[of s4 s5 s6 s7]
    by (simp add: nth_append len)
  have c2: "inv_mix_column (?m ! 8) (?m ! 9) (?m ! 10) (?m ! 11) = [s8, s9, s10, s11]"
    unfolding m using inv_mix_column_mix_column[of s8 s9 s10 s11]
    by (simp add: nth_append len)
  have c3: "inv_mix_column (?m ! 12) (?m ! 13) (?m ! 14) (?m ! 15) = [s12, s13, s14, s15]"
    unfolding m using inv_mix_column_mix_column[of s12 s13 s14 s15]
    by (simp add: nth_append len)
  show "inv_mix_columns (mix_columns s) = s"
    unfolding inv_mix_columns_def c0 c1 c2 c3 by (simp add: s)
qed

lemma xor_bytes_twice: "length k = length s \<Longrightarrow> xor_bytes (xor_bytes s k) k = s"
proof (induction s arbitrary: k)
  case Nil
  then show ?case by (simp add: xor_bytes_def)
next
  case (Cons x s)
  then obtain y k' where k: "k = y # k'" "length k' = length s" by (cases k) auto
  with Cons.IH[of k'] show ?case by (simp add: xor_bytes_def xor.assoc)
qed

lemma length_xor_bytes [simp]: "length (xor_bytes a b) = min (length a) (length b)"
  by (simp add: xor_bytes_def)

lemma words4_length4: "length key = 4 * nk \<Longrightarrow> list_all (\<lambda>x. length x = 4) (words4 nk key)"
  by (induction nk arbitrary: key) auto

lemma length_words4 [simp]: "length (words4 nk key) = nk"
  by (induction nk arbitrary: key) auto

lemma expand_key_words:
  assumes "list_all (\<lambda>x. length x = 4) w" and "i = length w" and "0 < nk" and "nk \<le> i"
  shows "list_all (\<lambda>x. length x = 4) (expand_key n nk i rc w)
         \<and> length (expand_key n nk i rc w) = i + n"
  using assms
proof (induction n arbitrary: i rc w)
  case 0
  then show ?case by simp
next
  case (Suc n)
  have t: "length (w ! (i - 1)) = 4" "length (w ! (i - nk)) = 4"
    using Suc.prems by (simp_all add: list_all_length)
  let ?a = "xor_bytes (w ! (i - nk))
              (xor_bytes (map sbox (drop 1 (w ! (i - 1)) @ take 1 (w ! (i - 1)))) [rc, 0, 0, 0])"
  let ?b = "xor_bytes (w ! (i - nk)) (map sbox (w ! (i - 1)))"
  let ?c = "xor_bytes (w ! (i - nk)) (w ! (i - 1))"
  have l: "length ?a = 4" "length ?b = 4" "length ?c = 4" using t by simp_all
  have "\<And>x rc'. length x = 4 \<Longrightarrow>
          list_all (\<lambda>x. length x = 4) (expand_key n nk (Suc i) rc' (w @ [x]))
          \<and> length (expand_key n nk (Suc i) rc' (w @ [x])) = Suc i + n"
    using Suc.prems by (intro Suc.IH) simp_all
  with l show ?case by (simp add: Let_def)
qed

lemma length_concat4: "list_all (\<lambda>x. length x = 4) xs \<Longrightarrow> length (concat xs) = 4 * length xs"
  by (induction xs) auto

lemma length_round_key:
  assumes "length key = 16 \<or> length key = 24 \<or> length key = 32"
    and "r \<le> length key div 4 + 6"
  shows "length (round_key (key_expansion key) r) = 16"
proof -
  let ?nk = "length key div 4"
  have k: "length key = 4 * ?nk" "0 < ?nk" using assms(1) by auto
  let ?w = "key_expansion key"
  have w: "list_all (\<lambda>x. length x = 4) ?w" "length ?w = 4 * ?nk + 28"
    using expand_key_words[OF words4_length4[OF k(1)], of ?nk ?nk "3 * ?nk + 28" 1] k(2)
    by (simp_all add: key_expansion_def Let_def)
  have "list_all (\<lambda>x. length x = 4) (take 4 (drop (4 * r) ?w))"
    using w(1) by (auto simp: list_all_iff dest: in_set_takeD in_set_dropD)
  moreover have "length (take 4 (drop (4 * r) ?w)) = 4"
    using w(2) assms(2) by simp
  ultimately show ?thesis by (simp add: round_key_def length_concat4)
qed

lemma length_aes_round [simp]: "length (round_key w r) = 16 \<Longrightarrow> length (aes_round w r s) = 16"
  by (simp add: aes_round_def)

lemma aes_inv_round_round:
  assumes "length (round_key w r) = 16" and "length s = 16"
  shows "aes_inv_round w r (shift_rows (sub_bytes (aes_round w r s))) = shift_rows (sub_bytes s)"
proof -
  have "inv_sub_bytes (inv_shift_rows (shift_rows (sub_bytes (aes_round w r s)))) = aes_round w r s"
    using assms by (simp add: inv_shift_rows_shift_rows inv_sub_bytes_sub_bytes)
  moreover have "xor_bytes (aes_round w r s) (round_key w r) = mix_columns (shift_rows (sub_bytes s))"
    using assms by (simp add: aes_round_def xor_bytes_twice)
  ultimately show ?thesis
    by (simp add: aes_inv_round_def inv_mix_columns_mix_columns)
qed

lemma length_fold_aes_round:
  "list_all (\<lambda>r. length (round_key w r) = 16) rs \<Longrightarrow> length s = 16
   \<Longrightarrow> length (fold (aes_round w) rs s) = 16"
  by (induction rs arbitrary: s) auto

lemma fold_inv_rounds:
  "list_all (\<lambda>r. length (round_key w r) = 16) rs \<Longrightarrow> length s = 16 \<Longrightarrow>
   fold (aes_inv_round w) (rev rs) (shift_rows (sub_bytes (fold (aes_round w) rs s)))
   = shift_rows (sub_bytes s)"
proof (induction rs arbitrary: s)
  case Nil
  show ?case by simp
next
  case (Cons r rs)
  then have "fold (aes_inv_round w) (rev rs)
               (shift_rows (sub_bytes (fold (aes_round w) rs (aes_round w r s))))
             = shift_rows (sub_bytes (aes_round w r s))"
    by (intro Cons.IH) simp_all
  with Cons.prems show ?case by (simp add: aes_inv_round_round)
qed

lemma aes_block_roundtrip:
  assumes "length key = 16 \<or> length key = 24 \<or> length key = 32" and "length block = 16"
  shows "aes_decrypt_block key (aes_encrypt_block key block) = block"
    and "length (aes_encrypt_block key block) = 16"
proof -
  let ?w = "key_expansion key" and ?rounds = "length key div 4 + 6"
  have rk: "\<And>r. r \<le> ?rounds \<Longrightarrow> length (round_key ?w r) = 16"
    using assms(1) by (rule length_round_key)
  have rs: "list_all (\<lambda>r. length (round_key ?w r) = 16) [1..<?rounds]"
    by (simp add: list_all_iff rk)
  let ?init = "xor_bytes block (round_key ?w 0)"
  let ?s = "fold (aes_round ?w) [1..<?rounds] ?init"
  have l0: "length ?init = 16" using assms(2) rk[of 0] by simp
  have ls: "length ?s = 16" using rs l0 by (rule length_fold_aes_round)
  have e: "aes_encrypt_block key block = xor_bytes (shift_rows (sub_bytes ?s)) (round_key ?w ?rounds)"
    by (simp add: aes_encrypt_block_def Let_def)
  show "length (aes_encrypt_block key block) = 16"
    unfolding e using rk[of ?rounds] by simp
  have "xor_bytes (aes_encrypt_block key block) (round_key ?w ?rounds) = shift_rows (sub_bytes ?s)"
    unfolding e using rk[of ?rounds] by (simp add: xor_bytes_twice)
  then have "aes_decrypt_block key (aes_encrypt_block key block)
             = xor_bytes (inv_sub_bytes (inv_shift_rows (fold (aes_inv_round ?w) (rev [1..<?rounds])
                 (shift_rows (sub_bytes ?s))))) (round_key ?w 0)"
    by (simp add: aes_decrypt_block_def Let_def)
  also have "\<dots> = xor_bytes (inv_sub_bytes (inv_shift_rows (shift_rows (sub_bytes ?init)))) (round_key ?w 0)"
    using fold_inv_rounds[OF rs l0] by simp
  also have "\<dots> = block"
    using l0 assms(2) rk[of 0]
    by (simp add: inv_shift_rows_shift_rows inv_sub_bytes_sub_bytes xor_bytes_twice)
  finally show "aes_decrypt_block key (aes_encrypt_block key block) = block" .
qed

section \<open>Facts about the UTF-8 codec\<close>

lemma unat_of_nat_byte: "n < 256 \<Longrightarrow> unat (of_nat n :: byte) = n"
  by (simp add: unat_of_nat)

lemma utf8_decode_cp_1:
  assumes "c < 0x80"
  shows "utf8_decode_cp (of_nat c # r) = Inr (c, r)"
  using assms by (simp add: unat_of_nat_byte)

lemma decode_2:
  fixes b0 b1 :: byte
  assumes "unat b0 = 192 + q0" and "unat b1 = 128 + q1" and "q0 < 32" and "q1 < 64"
    and "128 \<le> q0 * 64 + q1"
  shows "utf8_decode_cp (b0 # b1 # r) = Inr (q0 * 64 + q1, r)"
  using assms by (simp add: cont_def Let_def)

lemma decode_3:
  fixes b0 b1 b2 :: byte
  assumes "unat b0 = 224 + q0" and "unat b1 = 128 + q1" and "unat b2 = 128 + q2"
    and "q0 < 16" and "q1 < 64" and "q2 < 64" and "cp = q0 * 4096 + q1 * 64 + q2"
    and "2048 \<le> cp" and "cp < 55296 \<or> 57344 \<le> cp"
  shows "utf8_decode_cp (b0 # b1 # b2 # r) = Inr (cp, r)"
  using assms by (simp add: cont_def Let_def; linarith)

lemma decode_4:
  fixes b0 b1 b2 b3 :: byte
  assumes "unat b0 = 240 + q0" and "unat b1 = 128 + q1" and "unat b2 = 128 + q2"
    and "unat b3 = 128 + q3"
    and "q0 < 8" and "q1 < 64" and "q2 < 64" and "q3 < 64"
    and "cp = q0 * 262144 + q1 * 4096 + q2 * 64 + q3"
    and "65536 \<le> cp" and "cp < 1114112"
  shows "utf8_decode_cp (b0 # b1 # b2 # b3 # r) = Inr (cp, r)"
  using assms by (simp add: cont_def Let_def)


lemma split_3: "(c::nat) = c div 4096 * 4096 + c div 64 mod 64 * 64 + c mod 64"
proof -
  define w x y z where "w = c div 64" and "x = c div 64 div 64" and "y = c div 64 mod 64"
    and "z = c mod 64"
  have a: "c div 4096 = x" unfolding x_def by (simp add: div_mult2_eq[symmetric])
  have "w = x * 64 + y" unfolding w_def x_def y_def by simp
  moreover have "c = w * 64 + z" unfolding w_def z_def by simp
  ultimately have "c = x * 4096 + y * 64 + z" by simp
  then show ?thesis unfolding a unfolding y_def z_def .
qed

lemma split_4:
  "(c::nat) = c div 262144 * 262144 + c div 4096 mod 64 * 4096 + c div 64 mod 64 * 64 + c mod 64"
proof -
  define w x y r where "w = c div 4096" and "x = c div 4096 div 64" and "y = c div 4096 mod 64"
    and "r = c div 64 mod 64 * 64 + c mod 64"
  have a: "c div 262144 = x" unfolding x_def by (simp add: div_mult2_eq[symmetric])
  have "w = x * 64 + y" unfolding w_def x_def y_def by simp
  moreover have "c = w * 4096 + r" unfolding w_def r_def using split_3[of c] by simp
  ultimately have "c = x * 262144 + y * 4096 + r" by simp
  then show ?thesis unfolding a unfolding y_def r_def by simp
qed

lemma utf8_decode_cp_encode_cp:
  assumes "utf8_encode_cp c = Inr b"
  shows "utf8_decode_cp (b @ r) = Inr (c, r)"
proof -
  consider (one) "c < 0x80" | (two) "0x80 \<le> c" "c < 0x800"
    | (three) "0x800 \<le> c" "c < 0x10000" "c < 0xD800 \<or> 0xE000 \<le> c"
    | (four) "0x10000 \<le> c" "c < 0x110000"
    using assms unfolding utf8_encode_cp_def by (cases "c < 0x80"; cases "c < 0x800";
      cases "0xD800 \<le> c \<and> c < 0xE000"; cases "c < 0x10000"; cases "c < 0x110000"; simp; linarith)
  then show ?thesis
  proof cases
    case one
    with assms have "b = [of_nat c]" by (simp add: utf8_encode_cp_def)
    with one show ?thesis using utf8_decode_cp_1[of c r] by simp
  next
    case two
    define b0 :: byte where "b0 = of_nat (0xC0 + c div 64)"
    define b1 :: byte where "b1 = of_nat (0x80 + c mod 64)"
    have b: "b = [b0, b1]"
      using assms two unfolding utf8_encode_cp_def b0_def b1_def by simp
    have q: "c div 64 < 32" "c mod 64 < 64" "c div 64 * 64 + c mod 64 = c"
      using two by simp_all
    have u: "unat b0 = 192 + c div 64" "unat b1 = 128 + c mod 64"
      using q unfolding b0_def b1_def by (simp_all only: unat_of_nat_byte)
    show ?thesis unfolding b using decode_2[OF u q(1,2), of r] two q(3) by simp
  next
    case three
    define b0 :: byte where "b0 = of_nat (0xE0 + c div 4096)"
    define b1 :: byte where "b1 = of_nat (0x80 + c div 64 mod 64)"
    define b2 :: byte where "b2 = of_nat (0x80 + c mod 64)"
    have b: "b = [b0, b1, b2]"
      using assms three unfolding utf8_encode_cp_def b0_def b1_def b2_def by auto
    have q: "c div 4096 < 16" "c div 64 mod 64 < 64" "c mod 64 < 64"
      using three by simp_all
    have c: "c = c div 4096 * 4096 + c div 64 mod 64 * 64 + c mod 64" by (rule split_3)
    have u: "unat b0 = 224 + c div 4096" "unat b1 = 128 + c div 64 mod 64" "unat b2 = 128 + c mod 64"
      using q unfolding b0_def b1_def b2_def by (simp_all only: unat_of_nat_byte)
    show ?thesis unfolding b using decode_3[OF u q c, of r] three by simp
  next
    case four
    define b0 :: byte where "b0 = of_nat (0xF0 + c div 262144)"
    define b1 :: byte where "b1 = of_nat (0x80 + c div 4096 mod 64)"
    define b2 :: byte where "b2 = of_nat (0x80 + c div 64 mod 64)"
    define b3 :: byte where "b3 = of_nat (0x80 + c mod 64)"
    have b: "b = [b0, b1, b2, b3]"
      using assms four unfolding utf8_encode_cp_def b0_def b1_def b2_def b3_def by auto
    have q: "c div 262144 < 8" "c div 4096 mod 64 < 64" "c div 64 mod 64 < 64" "c mod 64 < 64"
      using four by simp_all
    have c: "c = c div 262144 * 262144 + c div 4096 mod 64 * 4096 + c div 64 mod 64 * 64 + c mod 64"
      by (rule split_4)
    have u: "unat b0 = 240 + c div 262144" "unat b1 = 128 + c div 4096 mod 64"
      "unat b2 = 128 + c div 64 mod 64" "unat b3 = 128 + c mod 64"
      using q unfolding b0_def b1_def b2_def b3_def by (simp_all only: unat_of_nat_byte)
    show ?thesis unfolding b using decode_4[OF u q c, of r] four by simp
  qed
qed

lemma utf8_encode_cp_nonempty: "utf8_encode_cp c = Inr b \<Longrightarrow> b \<noteq> []"
  unfolding utf8_encode_cp_def by (auto split: if_splits)

lemma utf8_decode_encode: "utf8_encode s = Inr bs \<Longrightarrow> utf8_decode bs = Inr s"
proof (induction s arbitrary: bs)
  case Nil
  then show ?case by (simp add: utf8_decode.simps)
next
  case (Cons c s)
  then obtain b bs' where e: "utf8_encode_cp c = Inr b" "utf8_encode s = Inr bs'" "bs = b @ bs'"
    by (auto split: sum.splits)
  have "b \<noteq> []" using e(1) by (rule utf8_encode_cp_nonempty)
  with Cons.IH[OF e(2)] utf8_decode_cp_encode_cp[OF e(1), of bs'] e(3) show ?case
    by (simp add: utf8_decode.simps[of "b @ bs'"])
qed

section \<open>Facts about base-64\<close>

lemma b64_char_unat:
  "d < 64 \<Longrightarrow> unat (b64_char d) =
     (if d < 26 then 65 + d else if d < 52 then 71 + d else if d < 62 then d - 4
      else if d = 62 then 43 else 47)"
  unfolding b64_char_def by (rule unat_of_nat_byte) auto

lemma b64_value_char: "d < 64 \<Longrightarrow> b64_value (b64_char d) = Some d"
  by (auto simp: b64_value_def b64_char_unat Let_def)

lemma b64_char_not_pad: "d < 64 \<Longrightarrow> b64_char d \<noteq> 61"
proof
  assume "d < 64" "b64_char d = 61"
  then have "unat (b64_char d) = 61" by simp
  with \<open>d < 64\<close> show False by (auto simp: b64_char_unat split: if_splits)
qed

lemma b64_char_ascii: "d < 64 \<Longrightarrow> unat (b64_char d) < 128"
  by (auto simp: b64_char_unat)

lemma a2b_data:
  assumes "d < 64"
  shows "a2b_base64 quad_pos leftchar pads (b64_char d # rest) =
     (if quad_pos = 0 then a2b_base64 1 d 0 rest
      else if quad_pos = 1 then
        emit (of_nat (leftchar * 4 + d div 16)) (a2b_base64 2 (d mod 16) 0 rest)
      else if quad_pos = 2 then
        emit (of_nat (leftchar * 16 + d div 4)) (a2b_base64 3 (d mod 4) 0 rest)
      else emit (of_nat (leftchar * 64 + d)) (a2b_base64 0 0 0 rest))"
  using b64_value_char[OF assms] b64_char_not_pad[OF assms] by simp

lemma a2b_quad:
  assumes "d0 < 64" and "d1 < 64" and "d2 < 64" and "d3 < 64"
  shows "a2b_base64 0 l p (b64_char d0 # b64_char d1 # b64_char d2 # b64_char d3 # rest) =
           emit (of_nat (d0 * 4 + d1 div 16))
             (emit (of_nat (d1 mod 16 * 16 + d2 div 4))
               (emit (of_nat (d2 mod 4 * 64 + d3)) (a2b_base64 0 0 0 rest)))"
  by (simp add: a2b_data assms del: a2b_base64.simps)

lemma a2b_tail2:
  assumes "d0 < 64" and "d1 < 64"
  shows "a2b_base64 0 l p [b64_char d0, b64_char d1, 61, 61] = Inr [of_nat (d0 * 4 + d1 div 16)]"
proof -
  have pad: "\<And>x. a2b_base64 2 x 0 [61, 61] = Inr []" by simp
  show ?thesis by (simp add: a2b_data assms pad del: a2b_base64.simps)
qed

lemma a2b_tail3:
  assumes "d0 < 64" and "d1 < 64" and "d2 < 64"
  shows "a2b_base64 0 l p [b64_char d0, b64_char d1, b64_char d2, 61] =
           Inr [of_nat (d0 * 4 + d1 div 16), of_nat (d1 mod 16 * 16 + d2 div 4)]"
proof -
  have pad: "\<And>x. a2b_base64 3 x 0 [61] = Inr []" by simp
  show ?thesis by (simp add: a2b_data assms pad del: a2b_base64.simps)
qed

lemma byte_bound: "unat (a :: byte) < 256"
  using unsigned_less[of a] by simp


lemma b64decode_b64encode_gen: "a2b_base64 0 l p (b64encode bs) = Inr bs"
proof (induction bs arbitrary: l p rule: b64encode.induct)
  case 1
  show ?case by simp
next
  case (2 a)
  define x where "x = unat a"
  have x: "x < 256" unfolding x_def by (rule byte_bound)
  then have d: "x div 4 < 64" "x mod 4 * 16 < 64" by auto
  have "x div 4 * 4 + x mod 4 * 16 div 16 = x" by simp
  then have "a2b_base64 0 l p [b64_char (x div 4), b64_char (x mod 4 * 16), 61, 61] = Inr [of_nat x]"
    using a2b_tail2[OF d, of l p] by simp
  then show ?case by (simp add: x_def Let_def del: a2b_base64.simps)
next
  case (3 a b)
  define x y where "x = unat a" and "y = unat b"
  have x: "x < 256" "y < 256" unfolding x_def y_def by (rule byte_bound)+
  then have d: "x div 4 < 64" "x mod 4 * 16 + y div 16 < 64" "y mod 16 * 4 < 64" by auto
  have e: "x div 4 * 4 + (x mod 4 * 16 + y div 16) div 16 = x"
    "(x mod 4 * 16 + y div 16) mod 16 * 16 + y mod 16 * 4 div 4 = y"
    using x by auto
  have "a2b_base64 0 l p [b64_char (x div 4), b64_char (x mod 4 * 16 + y div 16),
          b64_char (y mod 16 * 4), 61] = Inr [of_nat x, of_nat y]"
    using a2b_tail3[OF d, of l p] unfolding e .
  then show ?case by (simp add: x_def y_def Let_def del: a2b_base64.simps)
next
  case (4 a b c rest)
  define x y z where "x = unat a" and "y = unat b" and "z = unat c"
  have x: "x < 256" "y < 256" "z < 256" unfolding x_def y_def z_def by (rule byte_bound)+
  then have d: "x div 4 < 64" "x mod 4 * 16 + y div 16 < 64" "y mod 16 * 4 + z div 64 < 64"
    "z mod 64 < 64" by auto
  have e: "x div 4 * 4 + (x mod 4 * 16 + y div 16) div 16 = x"
    "(x mod 4 * 16 + y div 16) mod 16 * 16 + (y mod 16 * 4 + z div 64) div 4 = y"
    "(y mod 16 * 4 + z div 64) mod 4 * 64 + z mod 64 = z"
    using x by auto
  have "a2b_base64 0 l p (b64_char (x div 4) # b64_char (x mod 4 * 16 + y div 16)
          # b64_char (y mod 16 * 4 + z div 64) # b64_char (z mod 64) # b64encode rest)
        = emit (of_nat x) (emit (of_nat y) (emit (of_nat z) (a2b_base64 0 0 0 (b64encode rest))))"
    using a2b_quad[OF d, of l p "b64encode rest"] unfolding e .
  then show ?case using "4.IH"[OF refl refl refl, of 0 0]
    by (simp add: x_def y_def z_def Let_def del: a2b_base64.simps)
qed

lemma b64decode_b64encode: "b64decode (b64encode bs) = Inr bs"
  by (simp add: b64decode_def b64decode_b64encode_gen)

lemma b64encode_ascii: "list_all (\<lambda>b. unat b < 128) (b64encode bs)"
proof (induction bs rule: b64encode.induct)
  case 1
  show ?case by simp
next
  case (2 a)
  have "unat a < 256" by (rule byte_bound)
  then have "unat a div 4 < 64" "unat a mod 4 * 16 < 64" by auto
  then show ?case by (simp add: Let_def b64_char_ascii)
next
  case (3 a b)
  have "unat a < 256" "unat b < 256" by (rule byte_bound)+
  then have "unat a div 4 < 64" "unat a mod 4 * 16 + unat b div 16 < 64" "unat b mod 16 * 4 < 64"
    by auto
  then show ?case by (simp add: Let_def b64_char_ascii)
next
  case (4 a b c rest)
  have "unat a < 256" "unat b < 256" "unat c < 256" by (rule byte_bound)+
  then have "unat a div 4 < 64" "unat a mod 4 * 16 + unat b div 16 < 64"
    "unat b mod 16 * 4 + unat c div 64 < 64" "unat c mod 64 < 64" by auto
  with "4.IH"[OF refl refl refl] show ?case by (simp add: Let_def b64_char_ascii)
qed

section \<open>Facts about the cipher object\<close>

lemma blocks_Nil [simp]: "blocks [] = []"
  by (simp add: blocks.simps)

lemma concat_blocks: "concat (blocks data) = data"
proof (induction data rule: blocks.induct)
  case (1 data)
  then show ?case by (cases "data = []") (simp_all add: blocks.simps[of data])
qed

lemma blocks_length16:
  "length data mod 16 = 0 \<Longrightarrow> list_all (\<lambda>b. length b = 16) (blocks data)"
proof (induction data rule: blocks.induct)
  case (1 data)
  show ?case
  proof (cases "data = []")
    case True
    then show ?thesis by (simp add: blocks.simps[of data])
  next
    case False
    with "1.prems" have len: "16 \<le> length data" by (cases "length data < 16") auto
    then have "length (drop 16 data) mod 16 = 0"
      using "1.prems" by (simp add: le_mod_geq[symmetric])
    with "1.IH"[OF False] len False show ?thesis by (simp add: blocks.simps[of data])
  qed
qed

lemma blocks_concat:
  "list_all (\<lambda>b. length b = 16) bs \<Longrightarrow> blocks (concat bs) = bs"
proof (induction bs)
  case Nil
  show ?case by (simp add: blocks.simps[of "[]"])
next
  case (Cons b bs)
  then have "b \<noteq> []" by auto
  with Cons show ?case by (simp add: blocks.simps[of "b @ concat bs"])
qed

lemma length_concat16:
  "list_all (\<lambda>b. length b = 16) bs \<Longrightarrow> length (concat bs) = 16 * length bs"
  by (induction bs) auto

lemma cbc_roundtrip:
  assumes "length key = 16 \<or> length key = 24 \<or> length key = 32"
  shows "length prev = 16 \<Longrightarrow> list_all (\<lambda>b. length b = 16) ps \<Longrightarrow>
         cbc_decrypt key prev (cbc_encrypt key prev ps) = ps
         \<and> list_all (\<lambda>b. length b = 16) (cbc_encrypt key prev ps)
         \<and> length (cbc_encrypt key prev ps) = length ps"
proof (induction ps arbitrary: prev)
  case Nil
  show ?case by simp
next
  case (Cons p ps)
  let ?c = "aes_encrypt_block key (xor_bytes p prev)"
  have lx: "length (xor_bytes p prev) = 16" using Cons.prems by simp
  have c: "length ?c = 16" "aes_decrypt_block key ?c = xor_bytes p prev"
    using aes_block_roundtrip[OF assms lx] by simp_all
  have "xor_bytes (xor_bytes p prev) prev = p"
    using Cons.prems by (simp add: xor_bytes_twice)
  with Cons.IH[OF c(1)] Cons.prems c show ?case by (simp add: Let_def)
qed

lemma cipher_roundtrip:
  assumes "length key = 16 \<or> length key = 24 \<or> length key = 32" and "length iv = 16"
    and "length data mod 16 = 0"
  shows "cipher_decrypt (Cipher key iv) (concat (cbc_encrypt key iv (blocks data))) = Inr data"
    and "length (concat (cbc_encrypt key iv (blocks data))) = length data"
proof -
  let ?ct = "cbc_encrypt key iv (blocks data)"
  have b: "list_all (\<lambda>b. length b = 16) (blocks data)" using assms(3) by (rule blocks_length16)
  note r = cbc_roundtrip[OF assms(1,2) b]
  have l: "length (concat ?ct) = 16 * length (blocks data)"
    using r by (simp add: length_concat16)
  also have "\<dots> = length (concat (blocks data))" using b by (simp add: length_concat16)
  finally show 2: "length (concat ?ct) = length data" by (simp add: concat_blocks)
  have "blocks (concat ?ct) = ?ct" using r by (simp add: blocks_concat)
  with r 2 assms(3) show "cipher_decrypt (Cipher key iv) (concat ?ct) = Inr data"
    by (simp add: concat_blocks)
qed

lemma utf8_decode_ascii:
  "list_all (\<lambda>b. unat b < 128) bs \<Longrightarrow> utf8_decode bs = Inr (map unat bs)"
proof (induction bs)
  case Nil
  show ?case by (simp add: utf8_decode.simps[of "[]"])
next
  case (Cons b bs)
  then show ?case by (simp add: utf8_decode.simps[of "b # bs"])
qed

lemma utf8_encode_ascii:
  "list_all (\<lambda>b. unat b < 128) bs \<Longrightarrow> utf8_encode (map unat bs) = Inr bs"
  by (induction bs) (auto simp: utf8_encode_cp_def)

section \<open>Facts about \<open>encrypt_message\<close> and \<open>decrypt_message\<close>\<close>

lemma length_generate_aes_iv [simp]: "length (fst (generate_aes_iv rng)) = 16"
  by (simp add: generate_aes_iv_def get_random_bytes_def AES_IV_SIZE_def)

lemma padding_aligned: "(n + (16 - n mod 16)) mod 16 = (0::nat)"
proof -
  have "n mod 16 < 16" by simp
  then have "n + (16 - n mod 16) = (n - n mod 16) + 16" by simp
  also have "\<dots> = n div 16 * 16 + 16" by (simp add: minus_mod_eq_div_mult)
  finally show ?thesis by simp
qed

lemma padding_aligned': "(n + 16 - n mod 16) mod 16 = (0::nat)"
  using padding_aligned[of n] by simp

lemma unat_inj_map: "map unat (xs :: bytes) = map unat ys \<Longrightarrow> xs = ys"
  by (simp add: inj_map_eq_map[OF inj_onI])

lemma b64encode_inj: "b64encode xs = b64encode ys \<Longrightarrow> xs = ys"
  by (metis b64decode_b64encode sum.inject(2))

text \<open>What \<open>encrypt_message\<close> computes when the text encodes and the key is an AES key.\<close>

lemma encrypt_message_try_ok:
  assumes key: "length aes_key = 16 \<or> length aes_key = 24 \<or> length aes_key = 32"
    and enc: "utf8_encode message = Inr message_bytes"
  shows "encrypt_message_try rng message aes_key =
           Inr (map unat (b64encode (fst (generate_aes_iv rng)
                  @ concat (cbc_encrypt aes_key (fst (generate_aes_iv rng))
                      (blocks (message_bytes
                         @ replicate (16 - length message_bytes mod 16)
                             (of_nat (16 - length message_bytes mod 16))))))))"
proof -
  let ?iv = "fst (generate_aes_iv rng)"
  let ?n = "16 - length message_bytes mod 16"
  let ?padded = "message_bytes @ replicate ?n (of_nat ?n)"
  have al: "length ?padded mod 16 = 0" by (simp add: padding_aligned')
  have new: "AES_new aes_key ?iv = Inr (Cipher aes_key ?iv)"
    using key by (auto simp: AES_new_def)
  have "utf8_decode (b64encode (?iv @ concat (cbc_encrypt aes_key ?iv (blocks ?padded))))
        = Inr (map unat (b64encode (?iv @ concat (cbc_encrypt aes_key ?iv (blocks ?padded)))))"
    by (rule utf8_decode_ascii) (rule b64encode_ascii)
  with al new enc show ?thesis
    by (simp add: encrypt_message_try_def AES_block_size_def Let_def del: length_append length_replicate)
qed

lemma decrypt_message_try_data:
  assumes "utf8_encode s = Inr raw" and "b64decode raw = Inr (iv @ ct)" and "length iv = 16"
    and "length aes_key = 16 \<or> length aes_key = 24 \<or> length aes_key = 32"
    and "cipher_decrypt (Cipher aes_key iv) ct = Inr padded" and "padded \<noteq> []"
  shows "decrypt_message_try (Some s) aes_key
         = utf8_decode (slice_to_neg (unat (last padded)) padded)"
  using assms by (auto simp: decrypt_message_try_def AES_IV_SIZE_def AES_new_def Let_def)

lemma unat_of_nat_small: "n \<le> 16 \<Longrightarrow> unat (of_nat n :: byte) = n"
  by (simp add: unat_of_nat)

lemma decrypt_encrypted:
  assumes key: "length aes_key = 16 \<or> length aes_key = 24 \<or> length aes_key = 32"
    and enc: "utf8_encode message = Inr message_bytes"
  shows "decrypt_message_try (or_none (encrypt_message_try rng message aes_key)) aes_key
         = Inr message"
proof -
  define n where "n = 16 - length message_bytes mod 16"
  define iv where "iv = fst (generate_aes_iv rng)"
  define padded where "padded = message_bytes @ replicate n (of_nat n :: byte)"
  define ct where "ct = concat (cbc_encrypt aes_key iv (blocks padded))"
  define b64 where "b64 = b64encode (iv @ ct)"
  have n: "1 \<le> n" "n \<le> 16" unfolding n_def by simp_all
  have iv: "length iv = 16" unfolding iv_def by simp
  have al: "length padded mod 16 = 0" unfolding padded_def n_def by (simp add: padding_aligned')
  have e: "encrypt_message_try rng message aes_key = Inr (map unat b64)"
    unfolding b64_def ct_def padded_def iv_def n_def by (rule encrypt_message_try_ok[OF key enc])
  have 1: "utf8_encode (map unat b64) = Inr b64"
    unfolding b64_def by (rule utf8_encode_ascii) (rule b64encode_ascii)
  have 2: "b64decode b64 = Inr (iv @ ct)" unfolding b64_def by (rule b64decode_b64encode)
  have 3: "cipher_decrypt (Cipher aes_key iv) ct = Inr padded"
    unfolding ct_def by (rule cipher_roundtrip(1)[OF key iv al])
  have r: "replicate n (of_nat n :: byte) \<noteq> []" using n by (cases n) auto
  then have ne: "padded \<noteq> []" unfolding padded_def by simp
  have "last padded = last (replicate n (of_nat n :: byte))"
    unfolding padded_def using r by (rule last_appendR)
  also have "\<dots> = (of_nat n :: byte)" using n by (intro last_replicate) simp
  finally have "unat (last padded) = n" using n by (simp only: unat_of_nat_small)
  moreover have "slice_to_neg n padded = message_bytes"
    using n unfolding padded_def by (simp add: slice_to_neg_def)
  ultimately have "utf8_decode (slice_to_neg (unat (last padded)) padded) = Inr message"
    using enc by (simp only: utf8_decode_encode)
  moreover have "decrypt_message_try (Some (map unat b64)) aes_key
        = utf8_decode (slice_to_neg (unat (last padded)) padded)"
    using 1 2 iv key 3 ne by (rule decrypt_message_try_data)
  ultimately show ?thesis by (simp add: e)
qed

section \<open>The claims about the symmetric cipher\<close>

lemma utf8_encode_not_scalar:
  "\<not> list_all scalar s \<Longrightarrow> utf8_encode s = Inl UnicodeEncodeError"
proof (induction s)
  case Nil
  then show ?case by simp
next
  case (Cons c s)
  show ?case
  proof (cases "scalar c")
    case True
    then obtain b where "utf8_encode_cp c = Inr b" using utf8_encode_cp_scalar by blast
    with True Cons show ?thesis by (simp split: sum.splits)
  next
    case False
    then show ?thesis by (simp add: utf8_encode_cp_not_scalar)
  qed
qed

text \<open>
  Claim C1, as the code has it. For every text that has a UTF-8 encoding (the empty text
  and texts of block-aligned length included), every 32-byte key and every state of the
  random source, decrypting what \<open>encrypt_message\<close> returned gives the text back.
\<close>

theorem C1_decrypt_encrypt:
  assumes "length aes_key = AES_KEY_SIZE" and "list_all scalar message"
  shows "decrypt_message (fst (encrypt_message rng message aes_key)) aes_key = Some message"
proof -
  from assms(2) obtain message_bytes where enc: "utf8_encode message = Inr message_bytes"
    using utf8_encode_scalar by blast
  have key: "length aes_key = 16 \<or> length aes_key = 24 \<or> length aes_key = 32"
    using assms(1) by (simp add: AES_KEY_SIZE_def)
  show ?thesis
    using decrypt_encrypted[OF key enc, of rng]
    by (simp add: decrypt_message_def encrypt_message_def)
qed

text \<open>A text of exactly one block, and the empty text.\<close>

theorem C1_decrypt_encrypt_witness:
  "decrypt_message (fst (encrypt_message (\<lambda>i. of_nat i) (asc ''0123456789abcdef'') (replicate 32 7)))
     (replicate 32 7) = Some (asc ''0123456789abcdef'')
   \<and> decrypt_message (fst (encrypt_message (\<lambda>i. of_nat i) [] (replicate 32 7)))
     (replicate 32 7) = Some []"
proof -
  have k: "length (replicate 32 (7 :: byte)) = AES_KEY_SIZE" by (simp add: AES_KEY_SIZE_def)
  have m: "list_all scalar (asc ''0123456789abcdef'')" "list_all scalar []"
    by (simp_all add: asc_def scalar_def)
  show ?thesis using C1_decrypt_encrypt[OF k m(1)] C1_decrypt_encrypt[OF k m(2)] by blast
qed

text \<open>
  Claim C1 as stated speaks of every string. A Python string may hold a lone surrogate;
  \<open>encode('utf-8')\<close> raises on it, \<open>encrypt_message\<close> returns \<open>None\<close>, and
  \<open>decrypt_message(None, key)\<close> returns \<open>None\<close>, not the string.
\<close>

theorem C1_surrogate_counterexample:
  "decrypt_message (fst (encrypt_message (\<lambda>i. 0) [0xD800] (replicate 32 0))) (replicate 32 0)
     \<noteq> Some [0xD800]"
  by (simp add: decrypt_message_def decrypt_message_try_def encrypt_message_def
      encrypt_message_try_def utf8_encode_cp_def)

text \<open>
  Claim C2, as the code has it. \<open>decrypt_message\<close> returns \<open>None\<close> when the base-64
  decoding raises and when the decoded input is shorter than the initialization vector.
  The last byte \<open>n\<close> of the deciphered data is not checked: the result is the decoding of
  \<open>padded[:-n]\<close> whatever \<open>n\<close> is, and it is the empty text when \<open>n\<close> is 0 or exceeds the
  length of the data.
\<close>

theorem C2_decrypt_message_failures:
  assumes "utf8_encode c = Inr raw"
  shows "(\<forall>e. b64decode raw = Inl e \<longrightarrow> decrypt_message (Some c) aes_key = None)
       \<and> (\<forall>data. b64decode raw = Inr data \<and> length data < AES_IV_SIZE
             \<longrightarrow> decrypt_message (Some c) aes_key = None)
       \<and> (\<forall>data ciph padded.
             b64decode raw = Inr data \<and> AES_new aes_key (take AES_IV_SIZE data) = Inr ciph
             \<and> cipher_decrypt ciph (drop AES_IV_SIZE data) = Inr padded \<and> padded \<noteq> []
             \<longrightarrow> decrypt_message (Some c) aes_key
                   = or_none (utf8_decode (slice_to_neg (unat (last padded)) padded))
                 \<and> (unat (last padded) = 0 \<or> length padded \<le> unat (last padded)
                      \<longrightarrow> decrypt_message (Some c) aes_key = Some []))"
proof (intro conjI allI impI)
  fix e assume "b64decode raw = Inl e"
  with assms show "decrypt_message (Some c) aes_key = None"
    by (simp add: decrypt_message_def decrypt_message_try_def)
next
  fix data assume "b64decode raw = Inr data \<and> length data < AES_IV_SIZE"
  with assms show "decrypt_message (Some c) aes_key = None"
    by (simp add: decrypt_message_def decrypt_message_try_def AES_new_def AES_IV_SIZE_def Let_def)
next
  fix data ciph padded
  assume a: "b64decode raw = Inr data \<and> AES_new aes_key (take AES_IV_SIZE data) = Inr ciph
             \<and> cipher_decrypt ciph (drop AES_IV_SIZE data) = Inr padded \<and> padded \<noteq> []"
  with assms show r: "decrypt_message (Some c) aes_key
                   = or_none (utf8_decode (slice_to_neg (unat (last padded)) padded))"
    by (simp add: decrypt_message_def decrypt_message_try_def Let_def)
  assume "unat (last padded) = 0 \<or> length padded \<le> unat (last padded)"
  then have "slice_to_neg (unat (last padded)) padded = []"
    by (auto simp: slice_to_neg_def)
  then show "decrypt_message (Some c) aes_key = Some []"
    unfolding r by (simp add: utf8_decode.simps[of "[]"])
qed

text \<open>\<open>"A"\<close> is not base-64; \<open>"QUJD"\<close> decodes to three bytes.\<close>

theorem C2_decrypt_message_failures_witness:
  "decrypt_message (Some (asc ''A'')) (replicate 32 0) = None
   \<and> decrypt_message (Some (asc ''QUJD'')) (replicate 32 0) = None"
proof -
  have 1: "utf8_encode (asc ''A'') = Inr [65]" "b64decode [65] = Inl BinasciiError"
    by (simp_all add: asc_def utf8_encode_cp_def b64decode_def b64_value_def)
  have 2: "utf8_encode (asc ''QUJD'') = Inr [81, 85, 74, 68]"
    "b64decode [81, 85, 74, 68] = Inr [65, 66, 67] \<and> length [65, 66, 67 :: byte] < AES_IV_SIZE"
    by (simp_all add: asc_def utf8_encode_cp_def b64decode_def b64_value_def AES_IV_SIZE_def)
  show ?thesis
    using C2_decrypt_message_failures[OF 1(1), of "replicate 32 0"] 1(2)
      C2_decrypt_message_failures[OF 2(1), of "replicate 32 0"] 2(2)
    by blast
qed

text \<open>
  The two blocks \<open>"0123456789abcdef0123456789abcde\x11"\<close>, encrypted under the all-zero
  key and initialization vector and encoded as \<open>encrypt_message\<close> encodes.
\<close>

lemma encrypt_two_blocks_literal:
  "map unat (b64encode (replicate 16 0
      @ concat (cbc_encrypt (replicate 32 0) (replicate 16 0)
          (blocks [48, 49, 50, 51, 52, 53, 54, 55, 56, 57, 97, 98, 99, 100, 101, 102,
                   48, 49, 50, 51, 52, 53, 54, 55, 56, 57, 97, 98, 99, 100, 101, 17]))))
   = asc ''AAAAAAAAAAAAAAAAAAAAALjDMxranJ6Ts1zmAcA0Da0sh3NY68/sfWSmmXKTsFzh''"
  by code_simp

text \<open>
  Claim C2 as stated wants a failure when the recovered padding byte is outside 1..16.
  The input below deciphers, under the all-zero key, to data whose last byte is 17;
  \<open>decrypt_message\<close> returns the truncated text \<open>"0123456789abcde"\<close>.
\<close>

theorem C2_padding_byte_counterexample:
  "exc_bind (exc_bind (utf8_encode
       (asc ''AAAAAAAAAAAAAAAAAAAAALjDMxranJ6Ts1zmAcA0Da0sh3NY68/sfWSmmXKTsFzh'')) b64decode)
     (\<lambda>data. cipher_decrypt (Cipher (replicate 32 0) (take 16 data)) (drop 16 data))
     = Inr [48, 49, 50, 51, 52, 53, 54, 55, 56, 57, 97, 98, 99, 100, 101, 102,
            48, 49, 50, 51, 52, 53, 54, 55, 56, 57, 97, 98, 99, 100, 101, 17]
   \<and> decrypt_message
       (Some (asc ''AAAAAAAAAAAAAAAAAAAAALjDMxranJ6Ts1zmAcA0Da0sh3NY68/sfWSmmXKTsFzh''))
       (replicate 32 0)
     = Some (asc ''0123456789abcde'')"
proof -
  define k :: bytes where "k = replicate 32 0"
  define iv :: bytes where "iv = replicate 16 0"
  define p :: bytes where
    "p = [48, 49, 50, 51, 52, 53, 54, 55, 56, 57, 97, 98, 99, 100, 101, 102,
          48, 49, 50, 51, 52, 53, 54, 55, 56, 57, 97, 98, 99, 100, 101, 17]"
  define ct where "ct = concat (cbc_encrypt k iv (blocks p))"
  define b64 where "b64 = b64encode (iv @ ct)"
  have c: "asc ''AAAAAAAAAAAAAAAAAAAAALjDMxranJ6Ts1zmAcA0Da0sh3NY68/sfWSmmXKTsFzh'' = map unat b64"
    unfolding b64_def ct_def p_def iv_def k_def by (rule encrypt_two_blocks_literal[symmetric])
  have key: "length k = 16 \<or> length k = 24 \<or> length k = 32" unfolding k_def by simp
  have iv: "length iv = 16" unfolding iv_def by simp
  have al: "length p mod 16 = 0" unfolding p_def by simp
  have 1: "utf8_encode (map unat b64) = Inr b64"
    unfolding b64_def by (rule utf8_encode_ascii) (rule b64encode_ascii)
  have 2: "b64decode b64 = Inr (iv @ ct)" unfolding b64_def by (rule b64decode_b64encode)
  have 3: "cipher_decrypt (Cipher k iv) ct = Inr p"
    unfolding ct_def by (rule cipher_roundtrip(1)[OF key iv al])
  have ne: "p \<noteq> []" unfolding p_def by simp
  have l: "unat (last p) = 17" unfolding p_def by simp
  have s: "slice_to_neg 17 p = [48, 49, 50, 51, 52, 53, 54, 55, 56, 57, 97, 98, 99, 100, 101]"
    unfolding p_def by (simp add: slice_to_neg_def)
  have d: "utf8_decode [48, 49, 50, 51, 52, 53, 54, 55, 56, 57, 97, 98, 99, 100, 101]
           = Inr (asc ''0123456789abcde'')"
    by (subst utf8_decode_ascii) (simp_all add: asc_def)
  have "decrypt_message_try (Some (map unat b64)) k
        = utf8_decode (slice_to_neg (unat (last p)) p)"
    using 1 2 iv key 3 ne by (rule decrypt_message_try_data)
  then have r: "decrypt_message (Some (map unat b64)) k = Some (asc ''0123456789abcde'')"
    unfolding l s d by (simp add: decrypt_message_def)
  have "exc_bind (exc_bind (utf8_encode (map unat b64)) b64decode)
          (\<lambda>data. cipher_decrypt (Cipher k (take 16 data)) (drop 16 data)) = Inr p"
    using 1 2 3 iv by (simp del: cipher_decrypt.simps)
  with r show ?thesis unfolding c unfolding p_def k_def by (intro conjI)
qed

text \<open>
  Claim C3. For a text whose UTF-8 encoding is \<open>message_bytes\<close> and an AES key,
  \<open>encrypt_message\<close> appends \<open>n\<close> bytes of value \<open>n\<close> with \<open>1 \<le> n \<le> 16\<close>, a whole block
  of them when the encoding is block-aligned; what it returns decodes from base-64 to
  the 16-byte initialization vector followed by a ciphertext of whole blocks, as long as
  the padded encoding, which deciphers to the padded encoding.
\<close>

theorem C3_encrypt_message_format:
  assumes "length aes_key = 16 \<or> length aes_key = 24 \<or> length aes_key = 32"
    and "utf8_encode message = Inr message_bytes"
  shows "(let n = AES_block_size - length message_bytes mod AES_block_size;
              iv = fst (generate_aes_iv rng)
          in 1 \<le> n \<and> n \<le> 16 \<and> (length message_bytes mod 16 = 0 \<longrightarrow> n = 16)
             \<and> (\<exists>c ct. fst (encrypt_message rng message aes_key) = Some c
                   \<and> exc_bind (utf8_encode c) b64decode = Inr (iv @ ct)
                   \<and> length iv = AES_IV_SIZE
                   \<and> length ct mod 16 = 0
                   \<and> length ct = length message_bytes + n
                   \<and> cipher_decrypt (Cipher aes_key iv) ct
                       = Inr (message_bytes @ replicate n (of_nat n))))"
proof -
  define n where "n = 16 - length message_bytes mod 16"
  define iv where "iv = fst (generate_aes_iv rng)"
  define padded where "padded = message_bytes @ replicate n (of_nat n :: byte)"
  define ct where "ct = concat (cbc_encrypt aes_key iv (blocks padded))"
  define b64 where "b64 = b64encode (iv @ ct)"
  have n: "1 \<le> n" "n \<le> 16" "length message_bytes mod 16 = 0 \<longrightarrow> n = 16"
    unfolding n_def by simp_all
  have iv: "length iv = 16" unfolding iv_def by simp
  have lp: "length padded = length message_bytes + n" unfolding padded_def by simp
  have al: "length padded mod 16 = 0" unfolding padded_def n_def by (simp add: padding_aligned')
  have e: "encrypt_message_try rng message aes_key = Inr (map unat b64)"
    unfolding b64_def ct_def padded_def iv_def n_def by (rule encrypt_message_try_ok[OF assms])
  have 1: "utf8_encode (map unat b64) = Inr b64"
    unfolding b64_def by (rule utf8_encode_ascii) (rule b64encode_ascii)
  have 2: "b64decode b64 = Inr (iv @ ct)" unfolding b64_def by (rule b64decode_b64encode)
  have 3: "cipher_decrypt (Cipher aes_key iv) ct = Inr padded"
    unfolding ct_def by (rule cipher_roundtrip(1)[OF assms(1) iv al])
  have 4: "length ct = length padded"
    unfolding ct_def by (rule cipher_roundtrip(2)[OF assms(1) iv al])
  have "fst (encrypt_message rng message aes_key) = Some (map unat b64)
        \<and> exc_bind (utf8_encode (map unat b64)) b64decode = Inr (iv @ ct)
        \<and> length iv = AES_IV_SIZE \<and> length ct mod 16 = 0
        \<and> length ct = length message_bytes + n
        \<and> cipher_decrypt (Cipher aes_key iv) ct = Inr (message_bytes @ replicate n (of_nat n))"
    using e 1 2 3 4 al lp iv by (simp add: encrypt_message_def AES_IV_SIZE_def padded_def)
  then have "\<exists>c ct. fst (encrypt_message rng message aes_key) = Some c
        \<and> exc_bind (utf8_encode c) b64decode = Inr (iv @ ct)
        \<and> length iv = AES_IV_SIZE \<and> length ct mod 16 = 0
        \<and> length ct = length message_bytes + n
        \<and> cipher_decrypt (Cipher aes_key iv) ct = Inr (message_bytes @ replicate n (of_nat n))"
    by (intro exI[of _ "map unat b64"] exI[of _ ct])
  with n show ?thesis
    unfolding Let_def AES_block_size_def n_def[symmetric] iv_def[symmetric] by blast
qed

text \<open>A text of 16 bytes gets 16 bytes of value 16: the ciphertext has two blocks.\<close>

theorem C3_encrypt_message_format_witness:
  "\<exists>c ct. fst (encrypt_message (\<lambda>i. of_nat i) (asc ''0123456789abcdef'') (replicate 32 7)) = Some c
      \<and> exc_bind (utf8_encode c) b64decode = Inr (fst (generate_aes_iv (\<lambda>i. of_nat i)) @ ct)
      \<and> length (fst (generate_aes_iv (\<lambda>i. of_nat i))) = 16
      \<and> length ct = 32
      \<and> cipher_decrypt (Cipher (replicate 32 7) (fst (generate_aes_iv (\<lambda>i. of_nat i)))) ct
          = Inr ([48, 49, 50, 51, 52, 53, 54, 55, 56, 57, 97, 98, 99, 100, 101, 102]
                 @ replicate 16 16)"
proof -
  have k: "length (replicate 32 (7 :: byte)) = 16 \<or> length (replicate 32 (7 :: byte)) = 24
           \<or> length (replicate 32 (7 :: byte)) = 32" by simp
  have m: "utf8_encode (asc ''0123456789abcdef'')
           = Inr [48, 49, 50, 51, 52, 53, 54, 55, 56, 57, 97, 98, 99, 100, 101, 102]"
    by (simp add: asc_def utf8_encode_cp_def)
  have n: "AES_block_size
             - length [48, 49, 50, 51, 52, 53, 54, 55, 56, 57, 97, 98, 99, 100, 101, 102 :: byte]
                 mod AES_block_size = 16"
    by (simp add: AES_block_size_def)
  from C3_encrypt_message_format[OF k m, of "\<lambda>i. of_nat i", unfolded Let_def n]
  obtain c ct where
    "fst (encrypt_message (\<lambda>i. of_nat i) (asc ''0123456789abcdef'') (replicate 32 7)) = Some c"
    "exc_bind (utf8_encode c) b64decode = Inr (fst (generate_aes_iv (\<lambda>i. of_nat i)) @ ct)"
    "length (fst (generate_aes_iv (\<lambda>i. of_nat i :: byte))) = AES_IV_SIZE"
    "length ct = length [48, 49, 50, 51, 52, 53, 54, 55, 56, 57, 97, 98, 99, 100, 101, 102 :: byte] + 16"
    "cipher_decrypt (Cipher (replicate 32 7) (fst (generate_aes_iv (\<lambda>i. of_nat i)))) ct
       = Inr ([48, 49, 50, 51, 52, 53, 54, 55, 56, 57, 97, 98, 99, 100, 101, 102]
              @ replicate 16 (of_nat 16))"
    by blast
  then show ?thesis
    by (intro exI[of _ c] exI[of _ ct]) (simp add: AES_IV_SIZE_def del: cipher_decrypt.simps)
qed

text \<open>
  Claim C10, as the code has it. Two calls of \<open>encrypt_message\<close> on the same text and key
  return the same ciphertext exactly when they drew the same initialization vector; each
  call draws its own 16 bytes from the random source (the second call the 16 bytes after
  those of the first), and nothing records the vectors already used.
\<close>

theorem C10_same_ciphertext_iff_same_iv:
  assumes "length aes_key = AES_KEY_SIZE" and "list_all scalar message"
  shows "(fst (encrypt_message rng message aes_key) = fst (encrypt_message rng' message aes_key))
           = (fst (generate_aes_iv rng) = fst (generate_aes_iv rng'))
         \<and> fst (generate_aes_iv (snd (encrypt_message rng message aes_key)))
             = map rng [AES_IV_SIZE..<2 * AES_IV_SIZE]"
proof -
  from assms(2) obtain message_bytes where enc: "utf8_encode message = Inr message_bytes"
    using utf8_encode_scalar by blast
  have key: "length aes_key = 16 \<or> length aes_key = 24 \<or> length aes_key = 32"
    using assms(1) by (simp add: AES_KEY_SIZE_def)
  note e = encrypt_message_try_ok[OF key enc]
  have "(fst (encrypt_message rng message aes_key) = fst (encrypt_message rng' message aes_key))
           = (fst (generate_aes_iv rng) = fst (generate_aes_iv rng'))"
  proof
    assume "fst (encrypt_message rng message aes_key) = fst (encrypt_message rng' message aes_key)"
    then show "fst (generate_aes_iv rng) = fst (generate_aes_iv rng')"
      by (auto simp: encrypt_message_def e dest!: unat_inj_map b64encode_inj)
  next
    assume "fst (generate_aes_iv rng) = fst (generate_aes_iv rng')"
    then show "fst (encrypt_message rng message aes_key) = fst (encrypt_message rng' message aes_key)"
      by (simp add: encrypt_message_def e)
  qed
  moreover have "[0..<16] = [0, 1, 2, 3, 4, 5, 6, 7, 8, 9, 10, 11, 12, 13, 14, 15::nat]"
    by code_simp
  then have "fst (generate_aes_iv (snd (encrypt_message rng message aes_key)))
             = map rng [AES_IV_SIZE..<2 * AES_IV_SIZE]"
    by (simp add: encrypt_message_def generate_aes_iv_def get_random_bytes_def AES_IV_SIZE_def)
  ultimately show ?thesis by blast
qed

text \<open>A source that delivers 0, 1, 2, ...: the two vectors differ, and so do the ciphertexts.\<close>

theorem C10_same_ciphertext_iff_same_iv_witness:
  "fst (encrypt_message (\<lambda>i. of_nat i) (asc ''hi'') (replicate 32 7))
   \<noteq> fst (encrypt_message (snd (encrypt_message (\<lambda>i. of_nat i) (asc ''hi'') (replicate 32 7)))
          (asc ''hi'') (replicate 32 7))"
proof -
  have k: "length (replicate 32 (7 :: byte)) = AES_KEY_SIZE" by (simp add: AES_KEY_SIZE_def)
  have m: "list_all scalar (asc ''hi'')" by (simp add: asc_def scalar_def)
  have "fst (generate_aes_iv (\<lambda>i. of_nat i :: byte)) ! 0 = 0"
    by (simp add: generate_aes_iv_def get_random_bytes_def AES_IV_SIZE_def)
  moreover have "map (\<lambda>i. of_nat i :: byte) [AES_IV_SIZE..<2 * AES_IV_SIZE] ! 0 = 16"
    by (simp add: AES_IV_SIZE_def)
  ultimately have "fst (generate_aes_iv (\<lambda>i. of_nat i :: byte))
      \<noteq> map (\<lambda>i. of_nat i :: byte) [AES_IV_SIZE..<2 * AES_IV_SIZE]"
    by (auto dest: arg_cong[where f = "\<lambda>xs. xs ! 0"])
  then show ?thesis
    using C10_same_ciphertext_iff_same_iv[OF k m, of "\<lambda>i. of_nat i"
        "snd (encrypt_message (\<lambda>i. of_nat i) (asc ''hi'') (replicate 32 7))"]
    by simp
qed

text \<open>
  Claim C10 as stated says never. A random source that delivers the same 16 bytes twice
  (here 32 zero bytes) makes two consecutive calls return the same ciphertext.
\<close>

theorem C10_repeated_iv_counterexample:
  "fst (encrypt_message (\<lambda>i. 0) (asc ''hi'') (replicate 32 0))
   = fst (encrypt_message (snd (encrypt_message (\<lambda>i. 0) (asc ''hi'') (replicate 32 0)))
          (asc ''hi'') (replicate 32 0))
   \<and> fst (encrypt_message (\<lambda>i. 0) (asc ''hi'') (replicate 32 0)) \<noteq> None"
proof -
  have k: "length (replicate 32 (0 :: byte)) = 16 \<or> length (replicate 32 (0 :: byte)) = 24
           \<or> length (replicate 32 (0 :: byte)) = 32" by simp
  have m: "utf8_encode (asc ''hi'') = Inr [104, 105]"
    by (simp add: asc_def utf8_encode_cp_def)
  have "snd (encrypt_message (\<lambda>i. 0) (asc ''hi'') (replicate 32 0)) = (\<lambda>i. 0)"
    by (simp add: encrypt_message_def generate_aes_iv_def get_random_bytes_def)
  moreover have "fst (encrypt_message (\<lambda>i. 0) (asc ''hi'') (replicate 32 0)) \<noteq> None"
    by (simp add: encrypt_message_def encrypt_message_try_ok[OF k m])
  ultimately show ?thesis by simp
qed

section \<open>Ciphertexts as payloads of the relay\<close>

lemma b64_char_not_bar: "d < 64 \<Longrightarrow> unat (b64_char d) \<noteq> 124"
  by (auto simp: b64_char_unat)

lemma b64encode_no_bar: "list_all (\<lambda>b. unat b \<noteq> 124) (b64encode bs)"
proof (induction bs rule: b64encode.induct)
  case 1
  show ?case by simp
next
  case (2 a)
  have "unat a < 256" by (rule byte_bound)
  then have "unat a div 4 < 64" "unat a mod 4 * 16 < 64" by auto
  then show ?case by (simp add: Let_def b64_char_not_bar)
next
  case (3 a b)
  have "unat a < 256" "unat b < 256" by (rule byte_bound)+
  then have "unat a div 4 < 64" "unat a mod 4 * 16 + unat b div 16 < 64" "unat b mod 16 * 4 < 64"
    by auto
  then show ?case by (simp add: Let_def b64_char_not_bar)
next
  case (4 a b c rest)
  have "unat a < 256" "unat b < 256" "unat c < 256" by (rule byte_bound)+
  then have "unat a div 4 < 64" "unat a mod 4 * 16 + unat b div 16 < 64"
    "unat b mod 16 * 4 + unat c div 64 < 64" "unat c mod 64 < 64" by auto
  with "4.IH"[OF refl refl refl] show ?case by (simp add: Let_def b64_char_not_bar)
qed

lemma cut_needs_head: "sep \<noteq> [] \<Longrightarrow> hd sep \<notin> set s \<Longrightarrow> cut sep s = None"
proof (induction s)
  case Nil
  then show ?case by simp
next
  case (Cons c s)
  then obtain x xs where sep: "sep = x # xs" by (cases sep) auto
  with Cons.prems have "c \<noteq> x" by auto
  with sep have "take (length sep) (c # s) \<noteq> sep" by auto
  with Cons show ?case by simp
qed

lemma exc_bind_Inr: "exc_bind r f = Inr y \<Longrightarrow> \<exists>x. r = Inr x \<and> f x = Inr y"
  by (cases r) auto

lemma or_none_Some: "or_none r = Some y \<Longrightarrow> r = Inr y"
  by (cases r) auto

text \<open>
  What \<open>encrypt_message\<close> returns is base-64 text: it holds no \<open>|\<close>, so the relay's
  \<open>split\<close> never cuts it.
\<close>

lemma ciphertext_has_no_separator:
  assumes "fst (encrypt_message rng message aes_key) = Some c"
  shows "124 \<notin> set c" and "\<not> str_contains MSG_SEPARATOR c"
proof -
  from assms have "encrypt_message_try rng message aes_key = Inr c"
    by (simp add: encrypt_message_def or_none_Some)
  then obtain data where c: "utf8_decode (b64encode data) = Inr c"
    unfolding encrypt_message_try_def Let_def
    by (blast dest!: exc_bind_Inr)
  have "utf8_decode (b64encode data) = Inr (map unat (b64encode data))"
    by (rule utf8_decode_ascii) (rule b64encode_ascii)
  with c have "c = map unat (b64encode data)" by simp
  then show 1: "124 \<notin> set c"
    using b64encode_no_bar[of data] by (auto simp: list_all_iff)
  have "cut MSG_SEPARATOR c = None"
    using 1 by (intro cut_needs_head) (simp_all add: MSG_SEPARATOR_def asc_def)
  then show "\<not> str_contains MSG_SEPARATOR c" by (simp add: str_contains_def)
qed

section \<open>The claim about failures\<close>

lemma or_none_None: "or_none r = None \<longleftrightarrow> (\<exists>e. r = Inl e)"
  by (cases r) auto

lemma utf8_encode_raises: "(\<exists>e. utf8_encode s = Inl e) \<longleftrightarrow> \<not> list_all scalar s"
proof
  assume "\<exists>e. utf8_encode s = Inl e"
  then show "\<not> list_all scalar s" using utf8_encode_scalar[of s] by auto
next
  assume "\<not> list_all scalar s"
  then show "\<exists>e. utf8_encode s = Inl e" by (auto dest: utf8_encode_not_scalar)
qed

lemma utf8_encode_cases:
  obtains (raises) "\<not> list_all scalar s" "utf8_encode s = Inl UnicodeEncodeError"
  | (encodes) raw where "list_all scalar s" "utf8_encode s = Inr raw"
  using utf8_encode_scalar[of s] utf8_encode_not_scalar[of s] by blast

lemma base64_text: "utf8_decode (b64encode bs) = Inr (map unat (b64encode bs))"
  by (rule utf8_decode_ascii[OF b64encode_ascii])

lemma length_aes_decrypt_block:
  assumes "length key = 16 \<or> length key = 24 \<or> length key = 32"
  shows "length (aes_decrypt_block key block) = 16"
proof -
  have "length (round_key (key_expansion key) 0) = 16"
    using assms by (rule length_round_key) simp
  then show ?thesis
    by (simp add: aes_decrypt_block_def Let_def inv_shift_rows_def inv_sub_bytes_def)
qed

lemma encrypt_aes_key_with_rsa_None:
  "encrypt_aes_key_with_rsa lib self rng aes_key recipient = None
   \<longleftrightarrow> map_of (peer_public_keys self) recipient = None
       \<or> (\<exists>pk e. map_of (peer_public_keys self) recipient = Some pk
                  \<and> oaep_encrypt lib pk aes_key rng = Inl e)"
proof (cases "map_of (peer_public_keys self) recipient")
  case None
  then show ?thesis by (simp add: encrypt_aes_key_with_rsa_def)
next
  case (Some pk)
  then show ?thesis
    by (cases "oaep_encrypt lib pk aes_key rng")
      (simp_all add: encrypt_aes_key_with_rsa_def base64_text)
qed

lemma decrypt_aes_key_with_rsa_None:
  "decrypt_aes_key_with_rsa lib self wrapped = None
   \<longleftrightarrow> wrapped = None
       \<or> (\<exists>s. wrapped = Some s \<and> \<not> list_all scalar s)
       \<or> (\<exists>s raw e. wrapped = Some s \<and> utf8_encode s = Inr raw \<and> b64decode raw = Inl e)
       \<or> (\<exists>s raw data. wrapped = Some s \<and> utf8_encode s = Inr raw \<and> b64decode raw = Inr data
             \<and> (private_key self = None
                 \<or> (\<exists>sk e. private_key self = Some sk \<and> oaep_decrypt lib sk data = Inl e)))"
proof (cases wrapped)
  case None
  then show ?thesis by (simp add: decrypt_aes_key_with_rsa_def)
next
  case (Some s)
  show ?thesis
  proof (cases s rule: utf8_encode_cases)
    case raises
    with Some show ?thesis by (simp add: decrypt_aes_key_with_rsa_def)
  next
    case (encodes raw)
    show ?thesis
    proof (cases "b64decode raw")
      case (Inl e)
      with Some encodes show ?thesis by (simp add: decrypt_aes_key_with_rsa_def)
    next
      case (Inr data)
      show ?thesis
      proof (cases "private_key self")
        case None
        with Some encodes Inr show ?thesis by (simp add: decrypt_aes_key_with_rsa_def)
      next
        case sk: (Some sk)
        with Some encodes Inr show ?thesis
          by (cases "oaep_decrypt lib sk data") (simp_all add: decrypt_aes_key_with_rsa_def)
      qed
    qed
  qed
qed

lemma encrypt_message_None:
  "fst (encrypt_message rng message aes_key) = None
   \<longleftrightarrow> \<not> list_all scalar message
       \<or> \<not> (length aes_key = 16 \<or> length aes_key = 24 \<or> length aes_key = 32)"
proof (cases message rule: utf8_encode_cases)
  case raises
  then show ?thesis by (simp add: encrypt_message_def encrypt_message_try_def)
next
  case (encodes raw)
  show ?thesis
  proof (cases "length aes_key = 16 \<or> length aes_key = 24 \<or> length aes_key = 32")
    case True
    from encrypt_message_try_ok[OF True encodes(2)] encodes(1) True show ?thesis
      by (simp add: encrypt_message_def)
  next
    case False
    with encodes show ?thesis
      by (simp add: encrypt_message_def encrypt_message_try_def AES_new_def Let_def)
  qed
qed

text \<open>What \<open>decrypt_message\<close> returns when nothing raises before the text is decoded.\<close>

lemma decrypt_message_whole:
  assumes enc: "utf8_encode s = Inr raw" and dec: "b64decode raw = Inr data"
    and key: "length aes_key = 16 \<or> length aes_key = 24 \<or> length aes_key = 32"
    and len: "16 < length data" "length data mod 16 = 0"
  shows "(let padded = concat (cbc_decrypt aes_key (take 16 data) (blocks (drop 16 data)))
          in decrypt_message (Some s) aes_key
             = or_none (utf8_decode (slice_to_neg (unat (last padded)) padded)))"
proof -
  define padded where "padded = concat (cbc_decrypt aes_key (take 16 data) (blocks (drop 16 data)))"
  have al: "(length data - 16) mod 16 = 0" using len by (simp add: le_mod_geq)
  have ne: "padded \<noteq> []"
  proof -
    have "drop 16 data \<noteq> []" using len by simp
    then obtain c cs where b: "blocks (drop 16 data) = c # cs"
      by (cases "blocks (drop 16 data)") (auto simp: blocks.simps[of "drop 16 data"])
    have "length (xor_bytes (aes_decrypt_block aes_key c) (take 16 data)) = 16"
      using len key by (simp add: length_aes_decrypt_block)
    then have "xor_bytes (aes_decrypt_block aes_key c) (take 16 data) \<noteq> []"
      by (auto simp del: length_xor_bytes)
    then show ?thesis by (simp add: padded_def b)
  qed
  have cd: "cipher_decrypt (Cipher aes_key (take 16 data)) (drop 16 data) = Inr padded"
    using al by (simp add: padded_def)
  have "b64decode raw = Inr (take 16 data @ drop 16 data)" using dec by simp
  from decrypt_message_try_data[OF enc this _ key cd ne] len(1)
  have "decrypt_message_try (Some s) aes_key
        = utf8_decode (slice_to_neg (unat (last padded)) padded)"
    by simp
  then show ?thesis by (simp add: decrypt_message_def padded_def Let_def)
qed

lemma decrypt_message_None:
  "decrypt_message ciphertext aes_key = None
   \<longleftrightarrow> ciphertext = None
       \<or> (\<exists>s. ciphertext = Some s \<and> \<not> list_all scalar s)
       \<or> (\<exists>s raw e. ciphertext = Some s \<and> utf8_encode s = Inr raw \<and> b64decode raw = Inl e)
       \<or> (\<exists>s raw data. ciphertext = Some s \<and> utf8_encode s = Inr raw \<and> b64decode raw = Inr data
             \<and> (\<not> (length aes_key = 16 \<or> length aes_key = 24 \<or> length aes_key = 32)
                 \<or> length data \<le> 16 \<or> length data mod 16 \<noteq> 0
                 \<or> (\<exists>e. let padded = concat (cbc_decrypt aes_key (take 16 data)
                                                (blocks (drop 16 data)))
                        in utf8_decode (slice_to_neg (unat (last padded)) padded) = Inl e)))"
proof (cases ciphertext)
  case None
  then show ?thesis by (simp add: decrypt_message_def decrypt_message_try_def)
next
  case (Some s)
  show ?thesis
  proof (cases s rule: utf8_encode_cases)
    case raises
    with Some show ?thesis by (simp add: decrypt_message_def decrypt_message_try_def)
  next
    case (encodes raw)
    show ?thesis
    proof (cases "b64decode raw")
      case (Inl e)
      with Some encodes show ?thesis by (simp add: decrypt_message_def decrypt_message_try_def)
    next
      case (Inr data)
      consider (key) "\<not> (length aes_key = 16 \<or> length aes_key = 24 \<or> length aes_key = 32)"
        | (short) "length aes_key = 16 \<or> length aes_key = 24 \<or> length aes_key = 32" "length data < 16"
        | (ragged) "length aes_key = 16 \<or> length aes_key = 24 \<or> length aes_key = 32" "16 \<le> length data"
            "length data mod 16 \<noteq> 0"
        | (empty) "length aes_key = 16 \<or> length aes_key = 24 \<or> length aes_key = 32" "length data = 16"
        | (whole) "length aes_key = 16 \<or> length aes_key = 24 \<or> length aes_key = 32" "16 < length data"
            "length data mod 16 = 0"
        by (cases "length data < 16"; cases "length data = 16"; cases "length data mod 16 = 0") auto
      then show ?thesis
      proof cases
        case key
        with Some encodes Inr show ?thesis
          by (simp add: decrypt_message_def decrypt_message_try_def AES_new_def Let_def)
      next
        case short
        with Some encodes Inr show ?thesis
          by (simp add: decrypt_message_def decrypt_message_try_def AES_new_def Let_def
              AES_IV_SIZE_def)
      next
        case ragged
        then have "(length data - 16) mod 16 \<noteq> 0"
          by (simp add: le_mod_geq)
        with ragged Some encodes Inr show ?thesis
          by (simp add: decrypt_message_def decrypt_message_try_def AES_new_def Let_def
              AES_IV_SIZE_def)
      next
        case empty
        then have "blocks (drop 16 data) = []" by (simp add: blocks_Nil)
        with empty Some encodes Inr show ?thesis
          by (simp add: decrypt_message_def decrypt_message_try_def AES_new_def Let_def
              AES_IV_SIZE_def)
      next
        case whole
        from decrypt_message_whole[OF encodes(2) Inr whole] whole Some encodes Inr show ?thesis
          by (simp add: or_none_None Let_def)
      qed
    qed
  qed
qed

lemma sign_message_None:
  "sign_message lib self message = None
   \<longleftrightarrow> \<not> list_all scalar message \<or> private_key self = None
       \<or> (\<exists>mb sk e. utf8_encode message = Inr mb \<and> private_key self = Some sk
                     \<and> pkcs1_15_sign lib sk mb = Inl e)"
proof (cases message rule: utf8_encode_cases)
  case raises
  then show ?thesis by (simp add: sign_message_def)
next
  case (encodes mb)
  show ?thesis
  proof (cases "private_key self")
    case None
    with encodes show ?thesis by (simp add: sign_message_def)
  next
    case (Some sk)
    with encodes show ?thesis
      by (cases "pkcs1_15_sign lib sk mb") (simp_all add: sign_message_def base64_text)
  qed
qed


text \<open>
  Two encryptions that give the same base-64 text: of the padded \<open>"hi"\<close> under the
  all-zero key, and of sixteen other bytes under the key of bytes 1, both with the all-zero
  initialization vector. Read under the second key, the ciphertext of \<open>"hi"\<close> is those
  sixteen bytes, whose last one is 74.
\<close>

lemma encrypt_hi_literal:
  "map unat (b64encode (replicate 16 0
      @ concat (cbc_encrypt (replicate 32 0) (replicate 16 0) (blocks [104, 105, 14, 14, 14, 14, 14, 14, 14, 14, 14, 14, 14, 14, 14, 14]))))
   = asc ''AAAAAAAAAAAAAAAAAAAAAEe/m3Qn6ccYtufm3aJuXX0=''"
  by code_simp

lemma encrypt_other_key_literal:
  "map unat (b64encode (replicate 16 0
      @ concat (cbc_encrypt (replicate 32 1) (replicate 16 0) (blocks [103, 8, 199, 73, 112, 221, 13, 65, 44, 249, 117, 157, 27, 239, 251, 74]))))
   = asc ''AAAAAAAAAAAAAAAAAAAAAEe/m3Qn6ccYtufm3aJuXX0=''"
  by code_simp

lemma encrypt_hi:
  "fst (encrypt_message (\<lambda>i. 0) (asc ''hi'') (replicate 32 0)) = Some (asc ''AAAAAAAAAAAAAAAAAAAAAEe/m3Qn6ccYtufm3aJuXX0='')"
proof -
  have enc: "utf8_encode (asc ''hi'') = Inr [104, 105]"
    by (simp add: asc_def utf8_encode_cp_def)
  have key: "length (replicate 32 (0 :: byte)) = 16 \<or> length (replicate 32 (0 :: byte)) = 24
             \<or> length (replicate 32 (0 :: byte)) = 32" by simp
  have iv: "fst (generate_aes_iv (\<lambda>i. 0)) = replicate 16 0"
    by (simp add: generate_aes_iv_def get_random_bytes_def AES_IV_SIZE_def map_replicate_const)
  have pad: "[104, 105] @ replicate (16 - length [104, 105 :: byte] mod 16)
                            (of_nat (16 - length [104, 105 :: byte] mod 16))
             = ([104, 105, 14, 14, 14, 14, 14, 14, 14, 14, 14, 14, 14, 14, 14, 14] :: bytes)"
    by code_simp
  show ?thesis
    unfolding encrypt_message_def fst_conv encrypt_message_try_ok[OF key enc] iv pad
      encrypt_hi_literal by simp
qed

lemma wrong_key_data:
  "\<exists>raw data. utf8_encode (asc ''AAAAAAAAAAAAAAAAAAAAAEe/m3Qn6ccYtufm3aJuXX0='') = Inr raw
      \<and> b64decode raw = Inr data \<and> length data = 32
      \<and> concat (cbc_decrypt (replicate 32 1) (take 16 data) (blocks (drop 16 data))) = [103, 8, 199, 73, 112, 221, 13, 65, 44, 249, 117, 157, 27, 239, 251, 74]"
proof -
  define k :: bytes where "k = replicate 32 1"
  define iv :: bytes where "iv = replicate 16 0"
  define p :: bytes where "p = [103, 8, 199, 73, 112, 221, 13, 65, 44, 249, 117, 157, 27, 239, 251, 74]"
  define ct where "ct = concat (cbc_encrypt k iv (blocks p))"
  define b64 where "b64 = b64encode (iv @ ct)"
  have c: "asc ''AAAAAAAAAAAAAAAAAAAAAEe/m3Qn6ccYtufm3aJuXX0='' = map unat b64"
    unfolding b64_def ct_def p_def iv_def k_def by (rule encrypt_other_key_literal[symmetric])
  have key: "length k = 16 \<or> length k = 24 \<or> length k = 32" unfolding k_def by simp
  have iv: "length iv = 16" unfolding iv_def by simp
  have al: "length p mod 16 = 0" unfolding p_def by simp
  have 1: "utf8_encode (map unat b64) = Inr b64"
    unfolding b64_def by (rule utf8_encode_ascii) (rule b64encode_ascii)
  have 2: "b64decode b64 = Inr (iv @ ct)" unfolding b64_def by (rule b64decode_b64encode)
  have "cipher_decrypt (Cipher k iv) ct = Inr p" "length ct = length p"
    unfolding ct_def by (rule cipher_roundtrip[OF key iv al])+
  then have 3: "concat (cbc_decrypt k iv (blocks ct)) = p" and 4: "length ct = 16"
    using al by (simp_all add: p_def)
  from 3 4 iv have "length (iv @ ct) = 32
      \<and> concat (cbc_decrypt k (take 16 (iv @ ct)) (blocks (drop 16 (iv @ ct)))) = p"
    by simp
  with 1 2 show ?thesis unfolding c k_def p_def by blast
qed

lemma wrong_key_decrypts:
  "decrypt_message (Some (asc ''AAAAAAAAAAAAAAAAAAAAAEe/m3Qn6ccYtufm3aJuXX0='')) (replicate 32 1) = Some []"
proof -
  obtain raw data where d: "utf8_encode (asc ''AAAAAAAAAAAAAAAAAAAAAEe/m3Qn6ccYtufm3aJuXX0='') = Inr raw"
      "b64decode raw = Inr data" "length data = 32"
      "concat (cbc_decrypt (replicate 32 1) (take 16 data) (blocks (drop 16 data))) = [103, 8, 199, 73, 112, 221, 13, 65, 44, 249, 117, 157, 27, 239, 251, 74]"
    using wrong_key_data by blast
  have key: "length (replicate 32 (1 :: byte)) = 16 \<or> length (replicate 32 (1 :: byte)) = 24
             \<or> length (replicate 32 (1 :: byte)) = 32" by simp
  from decrypt_message_whole[OF d(1,2) key] d(3,4) show ?thesis
    by (simp add: slice_to_neg_def utf8_decode.simps[of "[]"])
qed

text \<open>
  Claim C4, as the code has it. No operation of the handler has a result variant for a
  failure: each returns its result or \<open>None\<close>, and it returns \<open>None\<close> exactly when a step of
  its body raises, whatever the step. For \<open>encrypt_aes_key_with_rsa\<close> that is no public key
  on file for the recipient or a failing RSA encryption; for \<open>decrypt_aes_key_with_rsa\<close> an
  argument that is \<open>None\<close> or does not encode, a failing base-64 decoding, no private key or
  a failing RSA decryption; for \<open>encrypt_message\<close> a text that does not encode or a key
  that is no AES key; for \<open>decrypt_message\<close> an argument that is \<open>None\<close> or does not encode,
  a failing base-64 decoding, a key that is no AES key, data of at most one block or not
  of whole blocks, or deciphered bytes that, cut by their last byte, are not UTF-8; for
  \<open>sign_message\<close> a text that does not encode, no private key or a failing signature.
  Nothing else is a failure to \<open>decrypt_message\<close>: a wrong key and a padding byte out of
  range raise nothing, and what it returns then, for any AES key and any data of two
  whole blocks or more, is the deciphered bytes cut by their last byte and decoded.
\<close>

theorem C4_failures_return_None:
  "(encrypt_aes_key_with_rsa lib self rng aes_key recipient = None
    \<longleftrightarrow> map_of (peer_public_keys self) recipient = None
        \<or> (\<exists>pk e. map_of (peer_public_keys self) recipient = Some pk
                   \<and> oaep_encrypt lib pk aes_key rng = Inl e))
   \<and> (decrypt_aes_key_with_rsa lib self wrapped = None
    \<longleftrightarrow> wrapped = None
        \<or> (\<exists>s. wrapped = Some s \<and> \<not> list_all scalar s)
        \<or> (\<exists>s raw e. wrapped = Some s \<and> utf8_encode s = Inr raw \<and> b64decode raw = Inl e)
        \<or> (\<exists>s raw data. wrapped = Some s \<and> utf8_encode s = Inr raw \<and> b64decode raw = Inr data
              \<and> (private_key self = None
                  \<or> (\<exists>sk e. private_key self = Some sk \<and> oaep_decrypt lib sk data = Inl e))))
   \<and> (fst (encrypt_message rng message aes_key) = None
    \<longleftrightarrow> \<not> list_all scalar message
        \<or> \<not> (length aes_key = 16 \<or> length aes_key = 24 \<or> length aes_key = 32))
   \<and> (decrypt_message ciphertext aes_key = None
    \<longleftrightarrow> ciphertext = None
        \<or> (\<exists>s. ciphertext = Some s \<and> \<not> list_all scalar s)
        \<or> (\<exists>s raw e. ciphertext = Some s \<and> utf8_encode s = Inr raw \<and> b64decode raw = Inl e)
        \<or> (\<exists>s raw data. ciphertext = Some s \<and> utf8_encode s = Inr raw \<and> b64decode raw = Inr data
              \<and> (\<not> (length aes_key = 16 \<or> length aes_key = 24 \<or> length aes_key = 32)
                  \<or> length data \<le> 16 \<or> length data mod 16 \<noteq> 0
                  \<or> (\<exists>e. let padded = concat (cbc_decrypt aes_key (take 16 data)
                                                 (blocks (drop 16 data)))
                         in utf8_decode (slice_to_neg (unat (last padded)) padded) = Inl e))))
   \<and> (sign_message lib self message = None
    \<longleftrightarrow> \<not> list_all scalar message \<or> private_key self = None
        \<or> (\<exists>mb sk e. utf8_encode message = Inr mb \<and> private_key self = Some sk
                      \<and> pkcs1_15_sign lib sk mb = Inl e))
   \<and> (\<forall>s raw data. ciphertext = Some s \<and> utf8_encode s = Inr raw \<and> b64decode raw = Inr data
          \<and> (length aes_key = 16 \<or> length aes_key = 24 \<or> length aes_key = 32)
          \<and> 16 < length data \<and> length data mod 16 = 0
        \<longrightarrow> (let padded = concat (cbc_decrypt aes_key (take 16 data) (blocks (drop 16 data)))
             in decrypt_message ciphertext aes_key
                = or_none (utf8_decode (slice_to_neg (unat (last padded)) padded))))"
proof (intro conjI allI impI)
  fix s raw data
  assume "ciphertext = Some s \<and> utf8_encode s = Inr raw \<and> b64decode raw = Inr data
          \<and> (length aes_key = 16 \<or> length aes_key = 24 \<or> length aes_key = 32)
          \<and> 16 < length data \<and> length data mod 16 = 0"
  then show "let padded = concat (cbc_decrypt aes_key (take 16 data) (blocks (drop 16 data)))
             in decrypt_message ciphertext aes_key
                = or_none (utf8_decode (slice_to_neg (unat (last padded)) padded))"
    using decrypt_message_whole[of s raw data aes_key] by simp
qed (rule encrypt_aes_key_with_rsa_None decrypt_aes_key_with_rsa_None
      encrypt_message_None decrypt_message_None sign_message_None)+

text \<open>
  Six failures of six different causes, one result: no key on file for Bob, an RSA
  decryption that raises, text that is not base-64, a text with a lone surrogate, a key of
  five bytes, a signature that raises. And one that is none to the code: the ciphertext
  of \<open>"hi"\<close> under the all-zero key, read under the key of bytes 1, is the empty text.
\<close>

theorem C4_failures_return_None_witness:
  "encrypt_aes_key_with_rsa
     \<lparr>oaep_encrypt = (\<lambda>pk data rng. Inr data), oaep_decrypt = (\<lambda>sk data. Inl ValueError),
      pkcs1_15_sign = (\<lambda>sk data. Inl ValueError)\<rparr>
     \<lparr>private_key = Some (), peer_public_keys = [(asc ''Alice'', ())]\<rparr>
     (\<lambda>i. 0) (replicate 32 0) (asc ''Bob'') = None
   \<and> decrypt_aes_key_with_rsa
     \<lparr>oaep_encrypt = (\<lambda>pk data rng. Inr data), oaep_decrypt = (\<lambda>sk data. Inl ValueError),
      pkcs1_15_sign = (\<lambda>sk data. Inl ValueError)\<rparr>
     \<lparr>private_key = Some (), peer_public_keys = [(asc ''Alice'', ())]\<rparr>
     (Some (asc ''QUJD'')) = None
   \<and> decrypt_message (Some (asc ''A'')) (replicate 32 0) = None
   \<and> fst (encrypt_message (\<lambda>i. 0) [0xD800] (replicate 32 0)) = None
   \<and> fst (encrypt_message (\<lambda>i. 0) (asc ''hi'') (replicate 5 0)) = None
   \<and> sign_message
     \<lparr>oaep_encrypt = (\<lambda>pk data rng. Inr data), oaep_decrypt = (\<lambda>sk data. Inl ValueError),
      pkcs1_15_sign = (\<lambda>sk data. Inl ValueError)\<rparr>
     \<lparr>private_key = Some (), peer_public_keys = [(asc ''Alice'', ())]\<rparr>
     (asc ''hi'') = None
   \<and> decrypt_message (Some (asc ''AAAAAAAAAAAAAAAAAAAAAEe/m3Qn6ccYtufm3aJuXX0='')) (replicate 32 1) = Some []"
proof -
  let ?lib = "\<lparr>oaep_encrypt = (\<lambda>pk data rng. Inr data),
               oaep_decrypt = (\<lambda>sk data. Inl ValueError) :: unit \<Rightarrow> bytes \<Rightarrow> exc + bytes,
               pkcs1_15_sign = (\<lambda>sk data. Inl ValueError)\<rparr> :: (unit, unit) rsa_lib"
  let ?self = "\<lparr>private_key = Some (), peer_public_keys = [(asc ''Alice'', ())]\<rparr>"
  have 1: "map_of (peer_public_keys ?self) (asc ''Bob'') = None" by (simp add: asc_def)
  have 2: "Some (asc ''QUJD'') = Some (asc ''QUJD'') \<and> utf8_encode (asc ''QUJD'') = Inr [81, 85, 74, 68]
           \<and> b64decode [81, 85, 74, 68] = Inr [65, 66, 67]
           \<and> (private_key ?self = None
               \<or> (\<exists>sk e. private_key ?self = Some sk \<and> oaep_decrypt ?lib sk [65, 66, 67] = Inl e))"
    by (simp add: asc_def utf8_encode_cp_def b64decode_def b64_value_def)
  have 3: "Some (asc ''A'') = Some (asc ''A'') \<and> utf8_encode (asc ''A'') = Inr [65]
           \<and> b64decode [65] = Inl BinasciiError"
    by (simp add: asc_def utf8_encode_cp_def b64decode_def b64_value_def)
  have 4: "\<not> list_all scalar [0xD800]" by (simp add: scalar_def)
  have 5: "\<not> (length (replicate 5 (0 :: byte)) = 16 \<or> length (replicate 5 (0 :: byte)) = 24
               \<or> length (replicate 5 (0 :: byte)) = 32)" by simp
  have 6: "utf8_encode (asc ''hi'') = Inr [104, 105] \<and> private_key ?self = Some ()
           \<and> pkcs1_15_sign ?lib () [104, 105] = Inl ValueError"
    by (simp add: asc_def utf8_encode_cp_def)
  obtain raw data where 7: "utf8_encode (asc ''AAAAAAAAAAAAAAAAAAAAAEe/m3Qn6ccYtufm3aJuXX0='') = Inr raw"
      "b64decode raw = Inr data" "length data = 32"
      "concat (cbc_decrypt (replicate 32 1) (take 16 data) (blocks (drop 16 data))) = [103, 8, 199, 73, 112, 221, 13, 65, 44, 249, 117, 157, 27, 239, 251, 74]"
    using wrong_key_data by blast
  note a = C4_failures_return_None[where lib = ?lib and self = ?self and rng = "\<lambda>i. 0"
      and aes_key = "replicate 32 0" and recipient = "asc ''Bob''"
      and wrapped = "Some (asc ''QUJD'')" and message = "[0xD800]"
      and ciphertext = "Some (asc ''A'')"]
  note b = C4_failures_return_None[where lib = ?lib and self = ?self and rng = "\<lambda>i. 0"
      and aes_key = "replicate 5 0" and recipient = "asc ''Bob''"
      and wrapped = "Some (asc ''QUJD'')" and message = "asc ''hi''"
      and ciphertext = "Some (asc ''A'')"]
  note c = C4_failures_return_None[where lib = ?lib and self = ?self and rng = "\<lambda>i. 0"
      and aes_key = "replicate 32 1" and recipient = "asc ''Bob''"
      and wrapped = "Some (asc ''QUJD'')" and message = "asc ''hi''"
      and ciphertext = "Some (asc ''AAAAAAAAAAAAAAAAAAAAAEe/m3Qn6ccYtufm3aJuXX0='')"]
  have r1: "encrypt_aes_key_with_rsa ?lib ?self (\<lambda>i. 0) (replicate 32 0) (asc ''Bob'') = None"
    using a[THEN conjunct1] 1 by blast
  have r2: "decrypt_aes_key_with_rsa ?lib ?self (Some (asc ''QUJD'')) = None"
    using a[THEN conjunct2, THEN conjunct1] 2 by blast
  have r3: "decrypt_message (Some (asc ''A'')) (replicate 32 0) = None"
    using a[THEN conjunct2, THEN conjunct2, THEN conjunct2, THEN conjunct1] 3 by blast
  have r4: "fst (encrypt_message (\<lambda>i. 0) [0xD800] (replicate 32 0)) = None"
    using a[THEN conjunct2, THEN conjunct2, THEN conjunct1] 4 by blast
  have r5: "fst (encrypt_message (\<lambda>i. 0) (asc ''hi'') (replicate 5 0)) = None"
    using b[THEN conjunct2, THEN conjunct2, THEN conjunct1] 5 by blast
  have r6: "sign_message ?lib ?self (asc ''hi'') = None"
    using b[THEN conjunct2, THEN conjunct2, THEN conjunct2, THEN conjunct2, THEN conjunct1] 6
    by blast
  have "let padded = concat (cbc_decrypt (replicate 32 1) (take 16 data) (blocks (drop 16 data)))
        in decrypt_message (Some (asc ''AAAAAAAAAAAAAAAAAAAAAEe/m3Qn6ccYtufm3aJuXX0='')) (replicate 32 1)
           = or_none (utf8_decode (slice_to_neg (unat (last padded)) padded))"
    using c[THEN conjunct2, THEN conjunct2, THEN conjunct2, THEN conjunct2, THEN conjunct2,
        rule_format, of "asc ''AAAAAAAAAAAAAAAAAAAAAEe/m3Qn6ccYtufm3aJuXX0=''" raw data] 7
    by simp
  then have r7: "decrypt_message (Some (asc ''AAAAAAAAAAAAAAAAAAAAAEe/m3Qn6ccYtufm3aJuXX0='')) (replicate 32 1) = Some []"
    unfolding 7(4) by (simp add: slice_to_neg_def utf8_decode.simps[of "[]"])
  show ?thesis using r1 r2 r3 r4 r5 r6 r7 by (intro conjI)
qed

text \<open>
  Claim C4 as stated wants every failure reported as a result variant of its own. Only
  Alice's key is on file: wrapping a key for Bob returns \<open>None\<close>, as every failure that
  raises does. And \<open>"hi"\<close>, encrypted under the all-zero key and read under the key of
  bytes 1, comes back as the empty text: that failure is not reported at all. (The RSA
  operations are stand-ins here: neither path calls them.)
\<close>

theorem C4_unreported_failures_counterexample:
  "encrypt_aes_key_with_rsa
     \<lparr>oaep_encrypt = (\<lambda>pk data rng. Inr data), oaep_decrypt = (\<lambda>sk data. Inr data),
      pkcs1_15_sign = (\<lambda>sk data. Inr data)\<rparr>
     \<lparr>private_key = Some (), peer_public_keys = [(asc ''Alice'', ())]\<rparr>
     (\<lambda>i. 0) (replicate 32 0) (asc ''Bob'') = None
   \<and> decrypt_message (fst (encrypt_message (\<lambda>i. 0) (asc ''hi'') (replicate 32 0)))
       (replicate 32 1) = Some []"
  by (simp add: encrypt_aes_key_with_rsa_def encrypt_hi wrong_key_decrypts) (simp add: asc_def)

section \<open>The claim about the keyed hash\<close>











end
